theory Spec2Isabelle
  imports Main "HOL-Library.AList" "HOL-Library.Multiset"
begin

section \<open>Values exchanged with the collaborators\<close>

text \<open>
  The orchestrator and the executor exchange JavaScript values that come out of
  \<^verbatim>\<open>JSON.parse\<close> or are built as object literals. Only three things are ever done
  to them by the code modelled here: reading a named property, testing truthiness, and
  comparing with a string literal by \<^verbatim>\<open>===\<close>. An object is the list of its own
  properties; for a number only its being zero is ever tested.
\<close>

datatype json =
    JNull
  | JBool bool
  | JNum int
  | JStr string
  | JArr "json list"
  | JObj "(string \<times> json) list"

text \<open>
  \<^verbatim>\<open>v.k\<close> on a value that is not \<^verbatim>\<open>null\<close>: \<open>None\<close> stands for
  \<^verbatim>\<open>undefined\<close>. Reading a property of \<^verbatim>\<open>null\<close> throws; every caller below
  tests for \<open>JNull\<close> first and raises the TypeError itself.
\<close>

fun get_prop :: "json \<Rightarrow> string \<Rightarrow> json option" where
  "get_prop (JObj kvs) k = map_of kvs k"
| "get_prop _ k = None"

fun truthy :: "json option \<Rightarrow> bool" where
  "truthy None = False"
| "truthy (Some JNull) = False"
| "truthy (Some (JBool b)) = b"
| "truthy (Some (JNum n)) = (n \<noteq> 0)"
| "truthy (Some (JStr s)) = (s \<noteq> [])"
| "truthy (Some (JArr xs)) = True"
| "truthy (Some (JObj kvs)) = True"

text \<open>An object literal leaves out nothing, but a property whose value is
  \<^verbatim>\<open>undefined\<close> is not written by \<^verbatim>\<open>JSON.stringify\<close>; it is left out here.\<close>

definition field :: "string \<Rightarrow> json option \<Rightarrow> (string \<times> json) list" where
  "field k v = (case v of None \<Rightarrow> [] | Some j \<Rightarrow> [(k, j)])"

text \<open>
  What one call of \<^verbatim>\<open>callGemini\<close> followed by fence stripping and \<^verbatim>\<open>JSON.parse\<close>
  can give: the HTTP call fails with a message; or the cleaned text is rejected by
  \<^verbatim>\<open>JSON.parse\<close>; or it is accepted, with the parsed value.
\<close>

datatype gemini_reply =
    ApiError string
  | Unparsed string
  | Parsed json

text \<open>
  \<^verbatim>\<open>callGeminiJSON\<close>: an error of \<^verbatim>\<open>callGemini\<close> propagates (\<open>Inl\<close>, the message);
  a parse failure is caught and answered with the object \<^verbatim>\<open>{ raw: cleaned }\<close>.
\<close>

fun callGeminiJSON :: "gemini_reply \<Rightarrow> string + json" where
  "callGeminiJSON (ApiError msg) = Inl msg"
| "callGeminiJSON (Unparsed cleaned) = Inr (JObj [(''raw'', JStr cleaned)])"
| "callGeminiJSON (Parsed j) = Inr j"

section \<open>Task and envelope\<close>

datatype status =
    Received | Classifying | Planned | Executing | Verifying
  | Completed | Retrying | NeedsHuman | DeadLettered

record document =
  original :: string
  path :: string
  mimetype :: string
  size_bytes :: nat

record envelope =
  ttl_max :: nat
  hops :: nat
  mode :: string
  state_hashes :: "string list"
  consecutive_failures :: nat
  consecutive_successes :: nat
  escalated :: bool
  session_ids :: "string list"
  mcp_cache_key :: string

text \<open>The properties \<^verbatim>\<open>plan\<close>, \<^verbatim>\<open>result\<close>, \<^verbatim>\<open>verification\<close> and
  \<^verbatim>\<open>last_error\<close> are absent from a new task and appear when first assigned. A task
  comes with a description, a string: the interval callback slices it for a log line
  before its \<^verbatim>\<open>try\<close>.\<close>

record task =
  task_id :: string
  description :: string
  software_name :: string
  task_type :: string
  documents :: "document list"
  status :: status
  created_at :: string
  envelope :: envelope
  plan :: "json option"
  result :: "json option"
  verification :: "json option"
  last_error :: "string option"

text \<open>
  The task literal of \<^verbatim>\<open>app.post('/api/tasks')\<close>. The id and the timestamp come from
  the clock and the uuid generator and are parameters; the two optional form fields fall
  back with \<^verbatim>\<open>||\<close>, so an empty string falls back as well.
\<close>

definition or_default :: "string option \<Rightarrow> string \<Rightarrow> string" where
  "or_default v d = (case v of None \<Rightarrow> d | Some s \<Rightarrow> if s = [] then d else s)"

definition post_api_tasks ::
  "string \<Rightarrow> string \<Rightarrow> string \<Rightarrow> string option \<Rightarrow> string option \<Rightarrow> document list \<Rightarrow> task" where
  "post_api_tasks taskId now descr sw ty files =
     \<lparr> task_id = taskId,
       description = descr,
       software_name = or_default sw ''unknown'',
       task_type = or_default ty ''data-entry'',
       documents = files,
       status = Received,
       created_at = now,
       envelope = \<lparr> ttl_max = 10, hops = 0, mode = ''EXECUTE'', state_hashes = [],
                    consecutive_failures = 0, consecutive_successes = 0,
                    escalated = False, session_ids = [],
                    mcp_cache_key = taskId @ ''-cache'' \<rparr>,
       plan = None, result = None, verification = None, last_error = None \<rparr>"

section \<open>What the collaborators answer during one pass\<close>

text \<open>
  One pass makes at most one planning call, one deep-analysis call and one verification
  call to the orchestrator; the executor spawns one session per plan step and, in
  SUPERVISE mode, takes two screenshots per step. \<open>spawn_reply i\<close> is what spawning for the
  step at position \<open>i\<close> does (\<open>Some msg\<close>: it throws), \<open>screenshot_reply k\<close> is the path
  returned by the \<open>k\<close>-th screenshot (\<open>None\<close>: \<^verbatim>\<open>null\<close>).
\<close>

record responses =
  plan_reply :: gemini_reply
  architect_reply :: gemini_reply
  verify_reply :: gemini_reply
  spawn_reply :: "nat \<Rightarrow> string option"
  screenshot_reply :: "nat \<Rightarrow> string option"

subsection \<open>What can throw on a reply that parsed\<close>

text \<open>
  The reply of the model is arbitrary JSON, and three kinds of expression in the
  orchestrator and the executor throw a TypeError on some of it. Reading a property of
  \<^verbatim>\<open>null\<close> is the first.
\<close>

definition null_read :: "string \<Rightarrow> string" where
  "null_read k = ''Cannot read properties of null (reading '' @ k @ '')''"

text \<open>
  The second is a template literal, in a prompt or a log line, over a value that cannot
  be converted to text: an object with an own property \<^verbatim>\<open>toString\<close>, which is never
  callable in parsed JSON, or an array that holds such an object (an array is converted
  by joining the conversions of its elements).
\<close>

fun printable_json :: "json \<Rightarrow> bool" where
  "printable_json (JObj kvs) = (map_of kvs ''toString'' = None)"
| "printable_json (JArr xs) = list_all printable_json xs"
| "printable_json j = True"

definition printable :: "json option \<Rightarrow> bool" where
  "printable v = (case v of None \<Rightarrow> True | Some j \<Rightarrow> printable_json j)"

text \<open>\<^verbatim>\<open>${v || 'text'}\<close> converts \<open>v\<close> only when it is truthy.\<close>

definition printable_or :: "json option \<Rightarrow> bool" where
  "printable_or v = (if truthy v then printable v else True)"

definition not_printable :: string where
  "not_printable = ''Cannot convert object to primitive value''"

text \<open>\<^verbatim>\<open>v?.length\<close>: the length of an array or a string, the own property of an
  object, \<^verbatim>\<open>undefined\<close> otherwise.\<close>

definition length_prop :: "json option \<Rightarrow> json option" where
  "length_prop v =
     (case v of
        Some (JArr xs) \<Rightarrow> Some (JNum (int (length xs)))
      | Some (JStr s) \<Rightarrow> Some (JNum (int (length s)))
      | Some (JObj kvs) \<Rightarrow> map_of kvs ''length''
      | _ \<Rightarrow> None)"

text \<open>
  The third is \<^verbatim>\<open>task.plan?.steps?.slice(-1)?.[0]?.verification\<close> in the verification
  prompt: the chain stops with \<^verbatim>\<open>undefined\<close> at a missing plan or a nullish
  \<^verbatim>\<open>steps\<close>, takes the last element of an array and reads its \<^verbatim>\<open>verification\<close>,
  gives \<^verbatim>\<open>undefined\<close> on a string, and throws on any other \<^verbatim>\<open>steps\<close>, which has no
  method \<^verbatim>\<open>slice\<close>.
\<close>

definition expected_outcome :: "task \<Rightarrow> string + json option" where
  "expected_outcome t =
     (case plan t of
        None \<Rightarrow> Inr None
      | Some p \<Rightarrow>
          (case get_prop p ''steps'' of
             None \<Rightarrow> Inr None
           | Some JNull \<Rightarrow> Inr None
           | Some (JArr xs) \<Rightarrow> Inr (if xs = [] then None else get_prop (last xs) ''verification'')
           | Some (JStr s) \<Rightarrow> Inr None
           | Some j \<Rightarrow> Inl ''task.plan?.steps?.slice is not a function''))"

subsection \<open>Orchestrator\<close>

text \<open>
  \<^verbatim>\<open>planExecution\<close> builds its prompt from strings and numbers of the task, calls the
  model, and logs \<^verbatim>\<open>plan.steps?.length || 0\<close> and
  \<^verbatim>\<open>plan.estimated_duration_minutes || '?'\<close> before it returns the plan.
\<close>

definition planExecution :: "responses \<Rightarrow> task \<Rightarrow> string + json" where
  "planExecution rs t =
     (case callGeminiJSON (plan_reply rs) of
        Inl err \<Rightarrow> Inl err
      | Inr p \<Rightarrow>
          if p = JNull then Inl (null_read ''steps'')
          else if printable_or (length_prop (get_prop p ''steps''))
                  \<and> printable_or (get_prop p ''estimated_duration_minutes'')
          then Inr p
          else Inl not_printable)"

text \<open>
  \<^verbatim>\<open>architectTask\<close> logs \<^verbatim>\<open>analysis.root_cause\<close> and \<^verbatim>\<open>analysis.confidence\<close>,
  then returns the analysis and, when the analysis has a truthy \<^verbatim>\<open>revised_plan\<close> and no
  truthy \<^verbatim>\<open>should_escalate_to_human\<close>, has replaced the task's plan and set its mode to
  EXECUTE.
\<close>

definition architectTask :: "responses \<Rightarrow> task \<Rightarrow> string + (json \<times> task)" where
  "architectTask rs t =
     (case callGeminiJSON (architect_reply rs) of
        Inl err \<Rightarrow> Inl err
      | Inr analysis \<Rightarrow>
          if analysis = JNull then Inl (null_read ''root_cause'')
          else if \<not> (printable (get_prop analysis ''root_cause'')
                      \<and> printable (get_prop analysis ''confidence''))
          then Inl not_printable
          else if truthy (get_prop analysis ''revised_plan'')
                  \<and> \<not> truthy (get_prop analysis ''should_escalate_to_human'')
          then Inr (analysis,
                    t\<lparr> plan := get_prop analysis ''revised_plan'',
                       envelope := (envelope t)\<lparr> mode := ''EXECUTE'' \<rparr> \<rparr>)
          else Inr (analysis, t))"

text \<open>
  \<^verbatim>\<open>verifyResult\<close> builds its prompt from the expected outcome of the last plan step
  and the serialised result, calls the model, and logs \<^verbatim>\<open>verification.status\<close> and
  \<^verbatim>\<open>verification.reason\<close> before it returns the verdict.
\<close>

definition verifyResult :: "responses \<Rightarrow> task \<Rightarrow> json \<Rightarrow> string + json" where
  "verifyResult rs t res =
     (case expected_outcome t of
        Inl err \<Rightarrow> Inl err
      | Inr expected \<Rightarrow>
          if \<not> printable_or expected then Inl not_printable
          else
            (case callGeminiJSON (verify_reply rs) of
               Inl err \<Rightarrow> Inl err
             | Inr v \<Rightarrow>
                 if v = JNull then Inl (null_read ''status'')
                 else if printable (get_prop v ''status'') \<and> printable (get_prop v ''reason'')
                 then Inr v
                 else Inl not_printable))"

subsection \<open>Executor\<close>

text \<open>\<^verbatim>\<open>spawnClaudeSession\<close> rethrows what the shell commands throw and otherwise
  returns a session whose id is \<^verbatim>\<open>task-\<close> followed by the last eight characters of
  the task id.\<close>

definition spawnClaudeSession :: "string option \<Rightarrow> string \<Rightarrow> string + string" where
  "spawnClaudeSession reply taskId =
     (case reply of
        Some msg \<Rightarrow> Inl msg
      | None \<Rightarrow> Inr (''task-'' @ drop (length taskId - 8) taskId))"

text \<open>
  \<^verbatim>\<open>for (const step of (plan.steps || []))\<close>: a falsy \<^verbatim>\<open>steps\<close> gives no
  iteration, an array gives its elements, a string its characters; any other truthy
  value is not iterable and the loop header throws.
\<close>

definition plan_steps :: "json \<Rightarrow> string + json list" where
  "plan_steps p =
     (if p = JNull then Inl (null_read ''steps'')
      else if \<not> truthy (get_prop p ''steps'') then Inr []
      else (case get_prop p ''steps'' of
              Some (JArr xs) \<Rightarrow> Inr xs
            | Some (JStr s) \<Rightarrow> Inr (map (\<lambda>c. JStr [c]) s)
            | _ \<Rightarrow> Inl ''plan.steps is not iterable''))"

text \<open>
  The \<^verbatim>\<open>try\<close> block of both loops: the prompt is built first, and a step whose
  \<^verbatim>\<open>verification\<close> cannot be converted to text throws there, before any session is
  spawned; whatever is thrown inside the block is caught and recorded as a failed step.
\<close>

definition spawn_for_step :: "responses \<Rightarrow> string \<Rightarrow> nat \<Rightarrow> json \<Rightarrow> string + string" where
  "spawn_for_step rs taskId i step =
     (if printable (get_prop step ''verification'')
      then spawnClaudeSession (spawn_reply rs i) taskId
      else Inl not_printable)"

text \<open>The loop body of \<^verbatim>\<open>executeTask\<close>, for the steps from position \<open>i\<close> on. A
  step that is \<^verbatim>\<open>null\<close> makes \<^verbatim>\<open>step.mode\<close> throw, and the log line converts
  \<^verbatim>\<open>step.step_number\<close> and \<^verbatim>\<open>step.action\<close> to text, both outside the inner
  \<^verbatim>\<open>try\<close>.\<close>

fun execute_steps :: "responses \<Rightarrow> string \<Rightarrow> nat \<Rightarrow> json list \<Rightarrow> string + json list" where
  "execute_steps rs taskId i [] = Inr []"
| "execute_steps rs taskId i (step # rest) =
     (if step = JNull then Inl (null_read ''mode'')
      else if get_prop step ''mode'' \<noteq> Some (JStr ''SUPERVISE'')
              \<and> \<not> (printable (get_prop step ''step_number'')
                      \<and> printable (get_prop step ''action''))
      then Inl not_printable
      else
        (let entry =
           (if get_prop step ''mode'' = Some (JStr ''SUPERVISE'')
            then JObj (field ''step'' (get_prop step ''step_number'')
                       @ [(''status'', JStr ''skipped''),
                          (''reason'', JStr ''GUI step requires SUPERVISE mode'')])
            else (case spawn_for_step rs taskId i step of
                    Inr sid \<Rightarrow>
                      JObj (field ''step'' (get_prop step ''step_number'')
                            @ [(''status'', JStr ''dispatched''), (''session'', JStr sid)])
                  | Inl msg \<Rightarrow>
                      JObj (field ''step'' (get_prop step ''step_number'')
                            @ [(''status'', JStr ''failed''), (''error'', JStr msg)])))
         in (case execute_steps rs taskId (Suc i) rest of
               Inl err \<Rightarrow> Inl err
             | Inr entries \<Rightarrow> Inr (entry # entries))))"

definition executeTask :: "responses \<Rightarrow> task \<Rightarrow> json \<Rightarrow> string + json" where
  "executeTask rs t p =
     (case plan_steps p of
        Inl err \<Rightarrow> Inl err
      | Inr steps \<Rightarrow>
          (case execute_steps rs (task_id t) 0 steps of
             Inl err \<Rightarrow> Inl err
           | Inr entries \<Rightarrow>
               Inr (JObj [(''task_id'', JStr (task_id t)), (''mode'', JStr ''EXECUTE''),
                          (''results'', JArr entries)])))"

definition shot :: "string option \<Rightarrow> json" where
  "shot p = (case p of None \<Rightarrow> JNull | Some f \<Rightarrow> JStr f)"

text \<open>The loop body of \<^verbatim>\<open>superviseTask\<close>: the log line, a screenshot before the
  step, the spawn, and a screenshot after it when the spawn did not throw.\<close>

fun supervise_steps :: "responses \<Rightarrow> string \<Rightarrow> nat \<Rightarrow> json list \<Rightarrow> string + json list" where
  "supervise_steps rs taskId i [] = Inr []"
| "supervise_steps rs taskId i (step # rest) =
     (if step = JNull then Inl (null_read ''step_number'')
      else if \<not> (printable (get_prop step ''step_number'')
                  \<and> printable (get_prop step ''action''))
      then Inl not_printable
      else
        (let before = shot (screenshot_reply rs (2 * i));
             entry =
               (case spawn_for_step rs taskId i step of
                  Inr sid \<Rightarrow>
                    JObj (field ''step'' (get_prop step ''step_number'')
                          @ [(''status'', JStr ''dispatched''), (''session'', JStr sid),
                             (''screenshots'',
                              JObj [(''before'', before),
                                    (''after'', shot (screenshot_reply rs (2 * i + 1)))])])
                | Inl msg \<Rightarrow>
                    JObj (field ''step'' (get_prop step ''step_number'')
                          @ [(''status'', JStr ''failed''), (''error'', JStr msg)]))
         in (case supervise_steps rs taskId (Suc i) rest of
               Inl err \<Rightarrow> Inl err
             | Inr entries \<Rightarrow> Inr (entry # entries))))"

definition superviseTask :: "responses \<Rightarrow> task \<Rightarrow> json \<Rightarrow> string + json" where
  "superviseTask rs t p =
     (case plan_steps p of
        Inl err \<Rightarrow> Inl err
      | Inr steps \<Rightarrow>
          (case supervise_steps rs (task_id t) 0 steps of
             Inl err \<Rightarrow> Inl err
           | Inr entries \<Rightarrow>
               Inr (JObj [(''task_id'', JStr (task_id t)), (''mode'', JStr ''SUPERVISE''),
                          (''results'', JArr entries)])))"

section \<open>The scheduler\<close>

text \<open>
  What a pass does outside the scheduler's memory is kept as a trace: every
  \<^verbatim>\<open>saveTask\<close> and \<^verbatim>\<open>deadLetter\<close> with the task as it is serialised at that
  moment (both catch their own write errors, so neither can throw), and every call to a
  collaborator entry point with the task as it is passed.
\<close>

datatype entry_point =
    PlanExecution | ExecuteTask | SuperviseTask | ArchitectTask | VerifyResult

datatype effect =
    Save task
  | DeadLetterWrite task
  | Call entry_point task

fun snapshot :: "effect \<Rightarrow> task" where
  "snapshot (Save t) = t"
| "snapshot (DeadLetterWrite t) = t"
| "snapshot (Call c t) = t"

text \<open>
  The fields of \<^verbatim>\<open>TaskQueue\<close>. \<open>processing\<close> is the \<^verbatim>\<open>Map\<close> from task id to
  task, in insertion order; \<open>maxConcurrent\<close> is the result of \<^verbatim>\<open>parseInt\<close>, with
  \<open>None\<close> for NaN. A task object is held by one collection at a time and by the pass
  that works on it, so tasks are passed by value: the pass carries the task it mutates, and
  the map keeps the task as it was admitted; the code reads only the size of the map and
  deletes by key. \<open>in_flight\<close> is not a field of the class: it lists the tasks of the
  interval callbacks that have admitted a task and have not yet ended their pass.
\<close>

record sched =
  queue :: "task list"
  processing :: "(string \<times> task) list"
  done_list :: "task list"
  maxConcurrent :: "int option"
  in_flight :: "task list"
  trace :: "effect list"

definition new_TaskQueue :: "int option \<Rightarrow> sched" where
  "new_TaskQueue cap =
     \<lparr> queue = [], processing = [], done_list = [], maxConcurrent = cap, in_flight = [],
       trace = [] \<rparr>"

definition enqueue :: "task \<Rightarrow> sched \<Rightarrow> sched" where
  "enqueue t s = s\<lparr> queue := queue s @ [t] \<rparr>"

definition pending :: "sched \<Rightarrow> nat" where
  "pending s = length (queue s)"

definition completed :: "sched \<Rightarrow> nat" where
  "completed s = length (done_list s)"

definition active :: "sched \<Rightarrow> nat" where
  "active s = length (processing s)"

definition saveTask :: "task \<Rightarrow> sched \<Rightarrow> sched" where
  "saveTask t s = s\<lparr> trace := trace s @ [Save t] \<rparr>"

definition deadLetter :: "task \<Rightarrow> sched \<Rightarrow> sched" where
  "deadLetter t s = s\<lparr> trace := trace s @ [DeadLetterWrite t] \<rparr>"

definition call :: "entry_point \<Rightarrow> task \<Rightarrow> sched \<Rightarrow> sched" where
  "call c t s = s\<lparr> trace := trace s @ [Call c t] \<rparr>"

definition processing_delete :: "string \<Rightarrow> sched \<Rightarrow> sched" where
  "processing_delete k s = s\<lparr> processing := AList.delete k (processing s) \<rparr>"

definition inc_hops :: "task \<Rightarrow> task" where
  "inc_hops t = t\<lparr> envelope := (envelope t)\<lparr> hops := hops (envelope t) + 1 \<rparr> \<rparr>"

subsection \<open>\<^verbatim>\<open>processTask\<close>, phases 1 and 2\<close>

text \<open>
  The \<^verbatim>\<open>switch\<close> on the mode. The result is \<open>Inl\<close> when the collaborator throws,
  with the task and trace as they are at that moment.
\<close>

definition dispatch ::
  "responses \<Rightarrow> json \<Rightarrow> task \<Rightarrow> sched \<Rightarrow> (string \<times> task \<times> sched) + (json \<times> task \<times> sched)" where
  "dispatch rs p t s =
     (if mode (envelope t) = ''EXECUTE'' then
        (case executeTask rs t p of
           Inl err \<Rightarrow> Inl (err, t, call ExecuteTask t s)
         | Inr res \<Rightarrow> Inr (res, t, call ExecuteTask t s))
      else if mode (envelope t) = ''SUPERVISE'' then
        (case superviseTask rs t p of
           Inl err \<Rightarrow> Inl (err, t, call SuperviseTask t s)
         | Inr res \<Rightarrow> Inr (res, t, call SuperviseTask t s))
      else if mode (envelope t) = ''ARCHITECT'' then
        (case architectTask rs t of
           Inl err \<Rightarrow> Inl (err, t, call ArchitectTask t s)
         | Inr (analysis, t') \<Rightarrow> Inr (analysis, t', call ArchitectTask t s))
      else
        (case executeTask rs t p of
           Inl err \<Rightarrow> Inl (err, t, call ExecuteTask t s)
         | Inr res \<Rightarrow> Inr (res, t, call ExecuteTask t s)))"

text \<open>Lines 47 to 82 of \<^verbatim>\<open>processTask\<close>: classification and planning, the hop
  count, the dispatch, and the status change to \<^verbatim>\<open>verifying\<close>.\<close>

definition processTask_execute ::
  "responses \<Rightarrow> task \<Rightarrow> sched \<Rightarrow> (string \<times> task \<times> sched) + (json \<times> task \<times> sched)" where
  "processTask_execute rs t0 s0 =
     (let t1 = t0\<lparr> status := Classifying \<rparr>;
          s1 = call PlanExecution t1 (saveTask t1 s0)
      in case planExecution rs t1 of
           Inl err \<Rightarrow> Inl (err, t1, s1)
         | Inr p \<Rightarrow>
             (let t2 = t1\<lparr> plan := Some p, status := Planned \<rparr>;
                  s2 = saveTask t2 s1;
                  t3 = inc_hops (t2\<lparr> status := Executing \<rparr>);
                  s3 = saveTask t3 s2
              in case dispatch rs p t3 s3 of
                   Inl thrown \<Rightarrow> Inl thrown
                 | Inr (res, t4, s4) \<Rightarrow>
                     (let t5 = t4\<lparr> status := Verifying \<rparr>
                      in Inr (res, t5, saveTask t5 s4))))"

subsection \<open>\<^verbatim>\<open>processTask\<close>, the verdict\<close>

text \<open>The branch of \<^verbatim>\<open>verification.status === 'PASS'\<close>.\<close>

definition pass_branch :: "json \<Rightarrow> json \<Rightarrow> task \<Rightarrow> sched \<Rightarrow> task \<times> sched" where
  "pass_branch v res t s =
     (let t1 = t\<lparr> status := Completed, result := Some res, verification := Some v \<rparr>;
          t2 = t1\<lparr> envelope := (envelope t1)
                    \<lparr> consecutive_successes := consecutive_successes (envelope t1) + 1 \<rparr> \<rparr>;
          t3 = t2\<lparr> envelope := (envelope t2)\<lparr> consecutive_failures := 0 \<rparr> \<rparr>;
          t4 = (if consecutive_successes (envelope t3) \<ge> 2 \<and> escalated (envelope t3)
                then t3\<lparr> envelope := (envelope t3)\<lparr> mode := ''EXECUTE'', escalated := False \<rparr> \<rparr>
                else t3);
          s1 = processing_delete (task_id t4) (saveTask t4 s)
      in (t4, s1\<lparr> done_list := done_list s1 @ [t4] \<rparr>))"

text \<open>The branch of \<^verbatim>\<open>verification.status === 'RETRY'\<close>.\<close>

definition retry_branch :: "task \<Rightarrow> sched \<Rightarrow> task \<times> sched" where
  "retry_branch t s =
     (let t1 = t\<lparr> envelope := (envelope t)
                   \<lparr> consecutive_failures := consecutive_failures (envelope t) + 1 \<rparr> \<rparr>;
          t2 = t1\<lparr> envelope := (envelope t1)\<lparr> consecutive_successes := 0 \<rparr> \<rparr>
      in if hops (envelope t2) \<ge> ttl_max (envelope t2) then
           (let t3 = t2\<lparr> status := DeadLettered \<rparr>
            in (t3, processing_delete (task_id t3) (deadLetter t3 (saveTask t3 s))))
         else
           (let t3 = (if consecutive_failures (envelope t2) \<ge> 3 \<and> \<not> escalated (envelope t2)
                      then t2\<lparr> envelope := (envelope t2)
                                \<lparr> mode := ''ARCHITECT'', escalated := True \<rparr> \<rparr>
                      else t2);
                t4 = t3\<lparr> status := Retrying \<rparr>;
                s1 = processing_delete (task_id t4) (saveTask t4 s)
            in (t4, s1\<lparr> queue := queue s1 @ [t4] \<rparr>)))"

text \<open>The final \<^verbatim>\<open>else\<close>, commented as the ESCALATE verdict.\<close>

definition escalate_branch :: "json \<Rightarrow> task \<Rightarrow> sched \<Rightarrow> task \<times> sched" where
  "escalate_branch v t s =
     (let t1 = t\<lparr> status := NeedsHuman, verification := Some v \<rparr>
      in (t1, processing_delete (task_id t1) (saveTask t1 s)))"

definition processTask_verdict :: "json \<Rightarrow> json \<Rightarrow> task \<Rightarrow> sched \<Rightarrow> task \<times> sched" where
  "processTask_verdict v res t s =
     (if get_prop v ''status'' = Some (JStr ''PASS'') then pass_branch v res t s
      else if get_prop v ''status'' = Some (JStr ''RETRY'') then retry_branch t s
      else escalate_branch v t s)"

text \<open>
  \<^verbatim>\<open>processTask\<close> as a whole. The first component is the message of the error it
  throws, if it throws; the task and the scheduler are then as the throw leaves them.
\<close>

definition processTask :: "responses \<Rightarrow> task \<Rightarrow> sched \<Rightarrow> string option \<times> task \<times> sched" where
  "processTask rs t s =
     (case processTask_execute rs t s of
        Inl (err, t', s') \<Rightarrow> (Some err, t', s')
      | Inr (res, t', s') \<Rightarrow>
          (case verifyResult rs t' res of
             Inl err \<Rightarrow> (Some err, t', call VerifyResult t' s')
           | Inr v \<Rightarrow>
               (case processTask_verdict v res t' (call VerifyResult t' s') of
                  (t'', s'') \<Rightarrow> (None, t'', s''))))"

subsection \<open>\<^verbatim>\<open>handleFailure\<close>\<close>

definition handleFailure :: "string \<Rightarrow> task \<Rightarrow> sched \<Rightarrow> task \<times> sched" where
  "handleFailure message t s =
     (let t1 = t\<lparr> envelope := (envelope t)
                   \<lparr> consecutive_failures := consecutive_failures (envelope t) + 1 \<rparr> \<rparr>;
          t2 = t1\<lparr> last_error := Some message \<rparr>
      in if hops (envelope t2) \<ge> ttl_max (envelope t2) then
           (let t3 = t2\<lparr> status := DeadLettered \<rparr>
            in (t3, processing_delete (task_id t3) (deadLetter t3 (saveTask t3 s))))
         else
           (let t3 = (if consecutive_failures (envelope t2) \<ge> 3
                      then t2\<lparr> envelope := (envelope t2)
                                \<lparr> mode := ''ARCHITECT'', escalated := True \<rparr> \<rparr>
                      else t2);
                t4 = t3\<lparr> status := Retrying \<rparr>;
                s1 = processing_delete (task_id t4) (saveTask t4 s)
            in (t4, s1\<lparr> queue := queue s1 @ [t4] \<rparr>)))"

subsection \<open>The polling loop\<close>

text \<open>
  The \<^verbatim>\<open>try\<close>/\<^verbatim>\<open>catch\<close> of the interval callback: one pass of one admitted task.
  The pass reads and writes the scheduler's collections only in its last synchronous
  block, so \<open>s\<close> may be any state that other passes have left by then.
\<close>

definition run_pass :: "responses \<Rightarrow> task \<Rightarrow> sched \<Rightarrow> task \<times> sched" where
  "run_pass rs t s =
     (case processTask rs t s of
        (None, t', s') \<Rightarrow> (t', s')
      | (Some err, t', s') \<Rightarrow> handleFailure err t' s')"

text \<open>
  The interval callback is asynchronous: it admits a task synchronously and then awaits
  the pass, so that callbacks of later polls may admit and end their own passes before
  this pass ends. \<open>admit\<close> is the synchronous head of the callback; \<open>finish i rs\<close> is the
  rest of the callback that holds the \<open>i\<close>-th task in flight, with what the collaborators
  answer during its pass; \<open>tick\<close> is a callback that runs from its admission to the end of
  its pass with no other callback in between.
\<close>

definition at_capacity :: "sched \<Rightarrow> bool" where
  "at_capacity s =
     (case maxConcurrent s of None \<Rightarrow> False | Some m \<Rightarrow> int (length (processing s)) \<ge> m)"

definition admit :: "sched \<Rightarrow> sched" where
  "admit s =
     (if at_capacity s then s
      else (case queue s of
              [] \<Rightarrow> s
            | t # rest \<Rightarrow>
                s\<lparr> queue := rest,
                   processing := AList.update (task_id t) t (processing s),
                   in_flight := in_flight s @ [t] \<rparr>))"

definition finish :: "nat \<Rightarrow> responses \<Rightarrow> sched \<Rightarrow> sched" where
  "finish i rs s =
     (if i < length (in_flight s)
      then snd (run_pass rs (in_flight s ! i)
                  (s\<lparr> in_flight := take i (in_flight s) @ drop (Suc i) (in_flight s) \<rparr>))
      else s)"

definition tick :: "responses \<Rightarrow> sched \<Rightarrow> sched" where
  "tick rs s =
     (if at_capacity s then s
      else if queue s = [] then s
      else finish (length (in_flight s)) rs (admit s))"

text \<open>A history of the scheduler: submissions, polls that admit, ends of passes, and
  polls whose pass ends before anything else happens.\<close>

datatype event = Enqueue task | Admit | Finish nat responses | Tick responses

fun step :: "event \<Rightarrow> sched \<Rightarrow> sched" where
  "step (Enqueue t) s = enqueue t s"
| "step Admit s = admit s"
| "step (Finish i rs) s = finish i rs s"
| "step (Tick rs) s = tick rs s"

fun run :: "event list \<Rightarrow> sched \<Rightarrow> sched" where
  "run [] s = s"
| "run (e # es) s = run es (step e s)"

section \<open>Notions used to state the properties\<close>

text \<open>The ids of the tasks that are pending, of the keys of the map of tasks being
  processed, of the tasks whose pass has not ended, and of all of these; and the ids that
  a history submits.\<close>

definition pending_ids :: "sched \<Rightarrow> string set" where
  "pending_ids s = task_id ` set (queue s)"

definition processing_ids :: "sched \<Rightarrow> string set" where
  "processing_ids s = fst ` set (processing s)"

definition in_flight_ids :: "sched \<Rightarrow> string set" where
  "in_flight_ids s = task_id ` set (in_flight s)"

definition managed :: "sched \<Rightarrow> string set" where
  "managed s = pending_ids s \<union> processing_ids s \<union> in_flight_ids s"

fun submitted :: "event list \<Rightarrow> task list" where
  "submitted [] = []"
| "submitted (Enqueue t # es) = t # submitted es"
| "submitted (e # es) = submitted es"

definition enqueued :: "event list \<Rightarrow> string set" where
  "enqueued es = task_id ` set (submitted es)"

text \<open>The effects that a step from \<open>s\<close> to \<open>s'\<close> has added to the trace, the entry
  points called among some effects, and the states of one task along the trace.\<close>

definition emitted :: "sched \<Rightarrow> sched \<Rightarrow> effect list" where
  "emitted s s' = drop (length (trace s)) (trace s')"

fun calls :: "effect list \<Rightarrow> entry_point list" where
  "calls [] = []"
| "calls (Call c t # es) = c # calls es"
| "calls (e # es) = calls es"

definition hops_of :: "effect \<Rightarrow> nat" where
  "hops_of e = hops (envelope (snapshot e))"

definition history :: "string \<Rightarrow> sched \<Rightarrow> task list" where
  "history tid s = filter (\<lambda>x. task_id x = tid) (map snapshot (trace s))"

text \<open>The tasks that are pending or whose pass has not ended.\<close>

definition live :: "sched \<Rightarrow> task multiset" where
  "live s = mset (queue s) + mset (in_flight s)"

text \<open>
  What holds of the task with id \<open>tid\<close>, submitted with hop count \<open>h0\<close>, as long as
  it is submitted once: the states of it that the trace shows are in order of hop count,
  from \<open>h0\<close> up to the ceiling; at most one copy of it is live; and a live copy is below
  the ceiling and at least as far as every state shown.
\<close>

definition tracked :: "string \<Rightarrow> nat \<Rightarrow> sched \<Rightarrow> bool" where
  "tracked tid h0 s \<longleftrightarrow>
     sorted (map (hops \<circ> envelope) (history tid s)) \<and>
     (\<forall>x \<in> set (history tid s).
        h0 \<le> hops (envelope x) \<and> hops (envelope x) \<le> ttl_max (envelope x)) \<and>
     size (filter_mset (\<lambda>u. task_id u = tid) (live s)) \<le> 1 \<and>
     (\<forall>u \<in># live s. task_id u = tid \<longrightarrow>
        h0 \<le> hops (envelope u) \<and> hops (envelope u) < ttl_max (envelope u) \<and>
        (\<forall>x \<in> set (history tid s). hops (envelope x) \<le> hops (envelope u)))"

text \<open>Every task that the scheduler holds or has written or passed on.\<close>

definition known :: "sched \<Rightarrow> task set" where
  "known s = set (queue s) \<union> snd ` set (processing s) \<union> set (in_flight s)
             \<union> set (done_list s) \<union> snapshot ` set (trace s)"

text \<open>The two streak counters of a task are not both nonzero; and what holds of them
  along a history whose submitted tasks come without a success: every task that is
  pending or in flight is without a success, and every task that the scheduler holds or
  has written or passed on has at most one of the counters nonzero.\<close>

definition exclusive :: "task \<Rightarrow> bool" where
  "exclusive x \<longleftrightarrow>
     consecutive_failures (envelope x) = 0 \<or> consecutive_successes (envelope x) = 0"

definition counters_kept :: "sched \<Rightarrow> bool" where
  "counters_kept s \<longleftrightarrow>
     (\<forall>u \<in> set (queue s @ in_flight s). consecutive_successes (envelope u) = 0) \<and>
     (\<forall>x \<in> known s. exclusive x)"

text \<open>What no scheduler operation changes about a task.\<close>

definition same_identity :: "task \<Rightarrow> task \<Rightarrow> bool" where
  "same_identity t x \<longleftrightarrow>
     task_id x = task_id t \<and>
     ttl_max (envelope x) = ttl_max (envelope t) \<and>
     state_hashes (envelope x) = state_hashes (envelope t) \<and>
     session_ids (envelope x) = session_ids (envelope t)"

text \<open>A stretch of a pass that takes the task from \<open>t\<close> to \<open>t'\<close>: the trace is only
  extended, and the states it shows lie between the two in hop count, in order.\<close>

definition advance :: "task \<Rightarrow> sched \<Rightarrow> task \<Rightarrow> sched \<Rightarrow> bool" where
  "advance t s t' s' \<longleftrightarrow>
     same_identity t t' \<and>
     hops (envelope t) \<le> hops (envelope t') \<and>
     take (length (trace s)) (trace s') = trace s \<and>
     (\<forall>e \<in> set (emitted s s').
        same_identity t (snapshot e) \<and> hops (envelope t) \<le> hops_of e
        \<and> hops_of e \<le> hops (envelope t')) \<and>
     sorted (map hops_of (emitted s s')) \<and>
     maxConcurrent s' = maxConcurrent s \<and>
     in_flight s' = in_flight s"

text \<open>How a pass ends: the task is pushed back on the queue, or pushed on the list of
  done tasks, or dropped from the scheduler.\<close>

definition settled :: "sched \<Rightarrow> task \<Rightarrow> sched \<Rightarrow> bool" where
  "settled s t' s' \<longleftrightarrow>
     (status t' = Retrying \<and> queue s' = queue s @ [t'] \<and> done_list s' = done_list s
        \<and> hops (envelope t') < ttl_max (envelope t')) \<or>
     (status t' = Completed \<and> queue s' = queue s \<and> done_list s' = done_list s @ [t']) \<or>
     ((status t' = DeadLettered \<or> status t' = NeedsHuman)
        \<and> queue s' = queue s \<and> done_list s' = done_list s)"

text \<open>The task as \<^verbatim>\<open>processTask\<close> saves it at its first three status changes, the
  last of them being the task that is dispatched; and the entry point that the
  \<^verbatim>\<open>switch\<close> selects for a mode.\<close>

definition classifying :: "task \<Rightarrow> task" where
  "classifying t = t\<lparr> status := Classifying \<rparr>"

definition planned :: "json \<Rightarrow> task \<Rightarrow> task" where
  "planned p t = (classifying t)\<lparr> plan := Some p, status := Planned \<rparr>"

definition executing :: "json \<Rightarrow> task \<Rightarrow> task" where
  "executing p t = inc_hops ((planned p t)\<lparr> status := Executing \<rparr>)"

definition entry_for :: "string \<Rightarrow> entry_point" where
  "entry_for m =
     (if m = ''EXECUTE'' then ExecuteTask
      else if m = ''SUPERVISE'' then SuperviseTask
      else if m = ''ARCHITECT'' then ArchitectTask
      else ExecuteTask)"

text \<open>
  The \<^verbatim>\<open>status\<close> property of the verdict that the pass of \<open>t\<close> obtains, when the pass
  gets as far as a verdict; and a run of polls in which the task at the head of the queue
  obtains the listed verdicts, one per poll.
\<close>

definition verdict_of :: "responses \<Rightarrow> task \<Rightarrow> sched \<Rightarrow> json option" where
  "verdict_of rs t s =
     (case processTask_execute rs t s of
        Inl thrown \<Rightarrow> None
      | Inr (res, t', s') \<Rightarrow>
          (case verifyResult rs t' res of
             Inl err \<Rightarrow> None
           | Inr v \<Rightarrow> get_prop v ''status''))"

fun receives :: "string list \<Rightarrow> responses list \<Rightarrow> sched \<Rightarrow> bool" where
  "receives [] [] s = True"
| "receives (v # vs) (rs # rss) s =
     (case queue s of
        [] \<Rightarrow> False
      | t # rest \<Rightarrow> verdict_of rs t s = Some (JStr v) \<and> receives vs rss (tick rs s))"
| "receives vs rss s = False"

section \<open>Concrete tasks and answers\<close>

definition task0 :: task where
  "task0 = post_api_tasks ''LEGACY-1700000000000-1a2b3c4d'' ''2023-11-14T22:13:20.000Z''
             ''Enter the March invoices'' None None []"

definition queue0 :: sched where
  "queue0 = new_TaskQueue (Some 3)"

definition plan_ok :: json where
  "plan_ok = JObj [(''steps'',
               JArr [JObj [(''step_number'', JNum 1), (''action'', JStr ''open the ledger''),
                           (''mode'', JStr ''EXECUTE''), (''verification'', JStr ''ledger open'')]])]"

definition verdict_json :: "string \<Rightarrow> json" where
  "verdict_json v = JObj [(''status'', JStr v), (''reason'', JStr ''checked'')]"

definition verdict :: "string \<Rightarrow> gemini_reply" where
  "verdict v = Parsed (verdict_json v)"

definition answers :: "gemini_reply \<Rightarrow> gemini_reply \<Rightarrow> gemini_reply \<Rightarrow> responses" where
  "answers p a v =
     \<lparr> plan_reply = p, architect_reply = a, verify_reply = v,
       spawn_reply = (\<lambda>i. None), screenshot_reply = (\<lambda>k. None) \<rparr>"

definition analysis_revised :: json where
  "analysis_revised =
     JObj [(''root_cause'', JStr ''dialog moved''),
           (''revised_plan'', JObj [(''steps'', JArr [])]),
           (''confidence'', JNum 1),
           (''should_escalate_to_human'', JBool False)]"

definition rs_retry :: responses where
  "rs_retry = answers (Parsed plan_ok) (Parsed (JObj [])) (verdict ''RETRY'')"

definition rs_pass :: responses where
  "rs_pass = answers (Parsed plan_ok) (Parsed (JObj [])) (verdict ''PASS'')"

definition rs_garbled :: responses where
  "rs_garbled = answers (Parsed plan_ok) (Parsed (JObj [])) (Unparsed ''Sure! Here is the result'')"

definition rs_plan_down :: responses where
  "rs_plan_down = answers (ApiError ''Gemini API error (503): unavailable'')
                    (Parsed (JObj [])) (verdict ''PASS'')"

definition rs_revised_retry :: responses where
  "rs_revised_retry = answers (Parsed plan_ok) (Parsed analysis_revised) (verdict ''RETRY'')"

definition rs_revised_down :: responses where
  "rs_revised_down = answers (Parsed plan_ok) (Parsed analysis_revised)
                       (ApiError ''Gemini API error (503): unavailable'')"

text \<open>A task as a caller may hand it to \<^verbatim>\<open>enqueue\<close> again after a PASS: one success
  on the counter.\<close>

definition task_recovered :: task where
  "task_recovered =
     task0\<lparr> envelope := (envelope task0)\<lparr> consecutive_successes := 1 \<rparr> \<rparr>"

text \<open>A task with a ceiling of three hops after two passes that ended in RETRY.\<close>

definition task_ttl3 :: task where
  "task_ttl3 =
     task0\<lparr> status := Retrying,
            envelope := (envelope task0)\<lparr> ttl_max := 3, hops := 2, consecutive_failures := 2 \<rparr> \<rparr>"


definition task_recovering :: task where
  "task_recovering =
     task0\<lparr> status := Verifying,
            envelope := (envelope task0)\<lparr> hops := 5, mode := ''ARCHITECT'', escalated := True,
                                        consecutive_successes := 1 \<rparr> \<rparr>"

text \<open>A task at its ceiling as the verdict arrives, with its key in the map of tasks
  being processed.\<close>

definition task_at_ttl :: task where
  "task_at_ttl =
     task0\<lparr> status := Verifying,
            envelope := (envelope task0)\<lparr> ttl_max := 3, hops := 3, consecutive_failures := 2 \<rparr> \<rparr>"

definition queue_in_flight :: sched where
  "queue_in_flight = queue0\<lparr> processing := [(task_id task_at_ttl, task_at_ttl)] \<rparr>"

text \<open>An escalated task in ARCHITECT mode, pending.\<close>

definition task_escalated :: task where
  "task_escalated =
     task0\<lparr> status := Retrying,
            envelope := (envelope task0)\<lparr> hops := 3, mode := ''ARCHITECT'', escalated := True,
                                        consecutive_failures := 3 \<rparr> \<rparr>"

text \<open>A second task, with another id.\<close>

definition task1 :: task where
  "task1 = post_api_tasks ''LEGACY-1700000000001-5e6f7a8b'' ''2023-11-14T22:13:21.000Z''
             ''Export the customer list'' (Some ''Ledger 98'') (Some ''data-extraction'') []"

section \<open>The shape of one pass\<close>

lemmas effect_defs = saveTask_def deadLetter_def call_def processing_delete_def

lemmas verdict_defs =
  processTask_verdict_def pass_branch_def retry_branch_def escalate_branch_def

lemma planExecution_any_task: "planExecution rs t = planExecution rs t'"
  by (simp add: planExecution_def)

lemma dispatch_cases:
  "dispatch rs p t s = r \<Longrightarrow>
     (\<exists>c err. r = Inl (err, t, call c t s)) \<or>
     (\<exists>c res. r = Inr (res, t, call c t s) \<and> c \<noteq> ArchitectTask) \<or>
     (\<exists>analysis t'. r = Inr (analysis, t', call ArchitectTask t s)
        \<and> architectTask rs t = Inr (analysis, t'))"
  by (auto simp: dispatch_def split: sum.splits if_splits)

lemma architectTask_frame:
  "architectTask rs t = Inr (a, t') \<Longrightarrow>
     t' = t \<or> (\<exists>p. t' = t\<lparr> plan := p, envelope := (envelope t)\<lparr> mode := ''EXECUTE'' \<rparr> \<rparr>)"
  by (auto simp: architectTask_def split: sum.splits if_splits)

lemma dispatch_frame:
  "dispatch rs p t s = Inl (err, t', s') \<Longrightarrow> t' = t \<and> (\<exists>c. s' = call c t s)"
  "dispatch rs p t s = Inr (res, t', s') \<Longrightarrow>
      (t' = t \<or> (\<exists>q. t' = t\<lparr> plan := q, envelope := (envelope t)\<lparr> mode := ''EXECUTE'' \<rparr> \<rparr>))
      \<and> (\<exists>c. s' = call c t s)"
  by (auto dest!: dispatch_cases architectTask_frame)

lemma trace_extended:
  "take (length (trace s)) (trace s') = trace s \<longleftrightarrow> trace s' = trace s @ emitted s s'"
  unfolding emitted_def by (metis append_take_drop_id append_eq_conv_conj)

lemma emitted_trans:
  assumes "trace s1 = trace s @ emitted s s1" and "trace s2 = trace s1 @ emitted s1 s2"
  shows "emitted s s2 = emitted s s1 @ emitted s1 s2"
  using assms by (metis append.assoc append_eq_conv_conj emitted_def)

lemma advance_trans:
  assumes "advance t s t1 s1" and "advance t1 s1 t2 s2"
  shows "advance t s t2 s2"
proof -
  from assms(1) have p1: "trace s1 = trace s @ emitted s s1"
    by (simp add: advance_def trace_extended)
  from assms(2) have p2: "trace s2 = trace s1 @ emitted s1 s2"
    by (simp add: advance_def trace_extended)
  have e: "emitted s s2 = emitted s s1 @ emitted s1 s2"
    by (rule emitted_trans[OF p1 p2])
  have "trace s2 = trace s @ emitted s s2"
    using p1 p2 e by simp
  then have "take (length (trace s)) (trace s2) = trace s"
    by (simp add: trace_extended)
  moreover have "sorted (map hops_of (emitted s s2))"
    using assms unfolding e advance_def by (fastforce simp: sorted_append)
  ultimately show ?thesis
    using assms unfolding e advance_def same_identity_def by fastforce
qed

lemma call_advance: "advance t s t (call c t s)"
  by (simp add: advance_def same_identity_def emitted_def effect_defs hops_of_def)

lemma execute_advance:
  "processTask_execute rs t s = Inl (err, t', s') \<Longrightarrow>
     advance t s t' s' \<and> hops (envelope t') \<le> hops (envelope t) + 1 \<and>
     queue s' = queue s \<and> processing s' = processing s \<and> done_list s' = done_list s"
  "processTask_execute rs t s = Inr (res, t', s') \<Longrightarrow>
     advance t s t' s' \<and> hops (envelope t') = hops (envelope t) + 1 \<and>
     queue s' = queue s \<and> processing s' = processing s \<and> done_list s' = done_list s"
  by (auto simp: processTask_execute_def Let_def inc_hops_def advance_def same_identity_def
                 emitted_def effect_defs hops_of_def
           split: sum.splits prod.splits dest!: dispatch_frame)

lemma execute_counters:
  "processTask_execute rs t s = Inl (err, t', s') \<Longrightarrow>
     consecutive_failures (envelope t') = consecutive_failures (envelope t) \<and>
     consecutive_successes (envelope t') = consecutive_successes (envelope t) \<and>
     escalated (envelope t') = escalated (envelope t)"
  "processTask_execute rs t s = Inr (res, t', s') \<Longrightarrow>
     consecutive_failures (envelope t') = consecutive_failures (envelope t) \<and>
     consecutive_successes (envelope t') = consecutive_successes (envelope t) \<and>
     escalated (envelope t') = escalated (envelope t) \<and> status t' = Verifying"
  by (auto simp: processTask_execute_def Let_def inc_hops_def
           split: sum.splits prod.splits dest!: dispatch_frame)

text \<open>Each ending of a pass, first as what it does to the scheduler in terms of the
  task it leaves, then as what it keeps of the task.\<close>

lemma pass_branch_sched:
  "snd (pass_branch v res t s)
     = s\<lparr> trace := trace s @ [Save (fst (pass_branch v res t s))],
          processing := AList.delete (task_id t) (processing s),
          done_list := done_list s @ [fst (pass_branch v res t s)] \<rparr>"
  by (simp add: pass_branch_def Let_def effect_defs)

lemma pass_branch_task:
  "same_identity t (fst (pass_branch v res t s))"
  "hops (envelope (fst (pass_branch v res t s))) = hops (envelope t)"
  "status (fst (pass_branch v res t s)) = Completed"
  by (simp_all add: pass_branch_def Let_def same_identity_def)

lemma retry_branch_sched:
  "snd (retry_branch t s)
     = (if ttl_max (envelope t) \<le> hops (envelope t)
        then s\<lparr> trace := trace s @ [Save (fst (retry_branch t s)),
                                       DeadLetterWrite (fst (retry_branch t s))],
                processing := AList.delete (task_id t) (processing s) \<rparr>
        else s\<lparr> trace := trace s @ [Save (fst (retry_branch t s))],
                processing := AList.delete (task_id t) (processing s),
                queue := queue s @ [fst (retry_branch t s)] \<rparr>)"
  by (simp add: retry_branch_def Let_def effect_defs)

lemma retry_branch_task:
  "same_identity t (fst (retry_branch t s))"
  "hops (envelope (fst (retry_branch t s))) = hops (envelope t)"
  "status (fst (retry_branch t s))
     = (if ttl_max (envelope t) \<le> hops (envelope t) then DeadLettered else Retrying)"
  by (simp_all add: retry_branch_def Let_def same_identity_def)

lemma escalate_branch_sched:
  "snd (escalate_branch v t s)
     = s\<lparr> trace := trace s @ [Save (fst (escalate_branch v t s))],
          processing := AList.delete (task_id t) (processing s) \<rparr>"
  by (simp add: escalate_branch_def Let_def effect_defs)

lemma escalate_branch_task:
  "same_identity t (fst (escalate_branch v t s))"
  "hops (envelope (fst (escalate_branch v t s))) = hops (envelope t)"
  "status (fst (escalate_branch v t s)) = NeedsHuman"
  by (simp_all add: escalate_branch_def Let_def same_identity_def)

lemma handleFailure_sched:
  "snd (handleFailure msg t s)
     = (if ttl_max (envelope t) \<le> hops (envelope t)
        then s\<lparr> trace := trace s @ [Save (fst (handleFailure msg t s)),
                                       DeadLetterWrite (fst (handleFailure msg t s))],
                processing := AList.delete (task_id t) (processing s) \<rparr>
        else s\<lparr> trace := trace s @ [Save (fst (handleFailure msg t s))],
                processing := AList.delete (task_id t) (processing s),
                queue := queue s @ [fst (handleFailure msg t s)] \<rparr>)"
  by (simp add: handleFailure_def Let_def effect_defs)

lemma handleFailure_task:
  "same_identity t (fst (handleFailure msg t s))"
  "hops (envelope (fst (handleFailure msg t s))) = hops (envelope t)"
  "status (fst (handleFailure msg t s))
     = (if ttl_max (envelope t) \<le> hops (envelope t) then DeadLettered else Retrying)"
  by (simp_all add: handleFailure_def Let_def same_identity_def)

lemma pass_branch_advance:
  assumes "pass_branch v res t s = (t', s')"
  shows "advance t s t' s' \<and> hops (envelope t') = hops (envelope t) \<and>
         processing s' = AList.delete (task_id t) (processing s) \<and> settled s t' s'"
proof -
  from assms have e: "t' = fst (pass_branch v res t s)" "s' = snd (pass_branch v res t s)"
    by simp_all
  show ?thesis
    unfolding e
    by (simp add: pass_branch_sched pass_branch_task advance_def emitted_def settled_def
                  hops_of_def)
qed

lemma retry_branch_advance:
  assumes "retry_branch t s = (t', s')"
  shows "advance t s t' s' \<and> hops (envelope t') = hops (envelope t) \<and>
         processing s' = AList.delete (task_id t) (processing s) \<and> settled s t' s'"
proof -
  from assms have e: "t' = fst (retry_branch t s)" "s' = snd (retry_branch t s)"
    by simp_all
  show ?thesis
    unfolding e
    using retry_branch_task(1)[of t s]
    by (simp add: retry_branch_sched retry_branch_task advance_def emitted_def settled_def
                  hops_of_def same_identity_def)
qed

lemma escalate_branch_advance:
  assumes "escalate_branch v t s = (t', s')"
  shows "advance t s t' s' \<and> hops (envelope t') = hops (envelope t) \<and>
         processing s' = AList.delete (task_id t) (processing s) \<and> settled s t' s'"
proof -
  from assms have e: "t' = fst (escalate_branch v t s)" "s' = snd (escalate_branch v t s)"
    by simp_all
  show ?thesis
    unfolding e
    by (simp add: escalate_branch_sched escalate_branch_task advance_def emitted_def
                  settled_def hops_of_def)
qed

lemma verdict_advance:
  "processTask_verdict v res t s = (t', s') \<Longrightarrow>
     advance t s t' s' \<and> hops (envelope t') = hops (envelope t) \<and>
     processing s' = AList.delete (task_id t) (processing s) \<and> settled s t' s'"
  unfolding processTask_verdict_def
  using pass_branch_advance retry_branch_advance escalate_branch_advance
  by (simp split: if_splits)

lemma handleFailure_advance:
  assumes "handleFailure msg t s = (t', s')"
  shows "advance t s t' s' \<and> hops (envelope t') = hops (envelope t) \<and>
         processing s' = AList.delete (task_id t) (processing s) \<and> settled s t' s'"
proof -
  from assms have e: "t' = fst (handleFailure msg t s)" "s' = snd (handleFailure msg t s)"
    by simp_all
  show ?thesis
    unfolding e
    using handleFailure_task(1)[of t msg s]
    by (simp add: handleFailure_sched handleFailure_task advance_def emitted_def settled_def
                  hops_of_def same_identity_def)
qed

lemma settled_from:
  "settled s1 t' s' \<Longrightarrow> queue s1 = queue s \<Longrightarrow> done_list s1 = done_list s \<Longrightarrow> settled s t' s'"
  by (simp add: settled_def)

text \<open>After the dispatch, a pass ends in the verdict handling or in the failure handler;
  both leave the hop count alone.\<close>

lemma pass_tail:
  assumes "processTask_execute rs t s = Inr (res, t1, s1)"
      and "run_pass rs t s = (t', s')"
  shows "advance t1 (call VerifyResult t1 s1) t' s' \<and> hops (envelope t') = hops (envelope t1) \<and>
         processing s' = AList.delete (task_id t1) (processing s1) \<and>
         settled s1 t' s'"
proof (cases "verifyResult rs t1 res")
  case (Inl err)
  with assms have "handleFailure err t1 (call VerifyResult t1 s1) = (t', s')"
    by (simp add: run_pass_def processTask_def)
  from handleFailure_advance[OF this] show ?thesis
    by (auto simp: call_def elim: settled_from)
next
  case (Inr v)
  with assms have "processTask_verdict v res t1 (call VerifyResult t1 s1) = (t', s')"
    by (simp add: run_pass_def processTask_def split: prod.splits)
  from verdict_advance[OF this] show ?thesis
    by (auto simp: call_def elim: settled_from)
qed

lemma run_pass_advance:
  assumes "run_pass rs t s = (t', s')"
  shows "advance t s t' s' \<and> hops (envelope t') \<le> hops (envelope t) + 1 \<and>
         processing s' = AList.delete (task_id t) (processing s) \<and> settled s t' s'"
proof (cases "processTask_execute rs t s")
  case (Inl a)
  then obtain err t1 s1 where a: "processTask_execute rs t s = Inl (err, t1, s1)"
    by (cases a) auto
  from execute_advance(1)[OF a] have
    1: "advance t s t1 s1" "hops (envelope t1) \<le> hops (envelope t) + 1"
       "queue s1 = queue s" "processing s1 = processing s" "done_list s1 = done_list s"
    by simp_all
  from a assms have h: "handleFailure err t1 s1 = (t', s')"
    by (simp add: run_pass_def processTask_def)
  from handleFailure_advance[OF h] have
    2: "advance t1 s1 t' s'" "hops (envelope t') = hops (envelope t1)"
       "processing s' = AList.delete (task_id t1) (processing s1)" "settled s1 t' s'"
    by simp_all
  have "task_id t1 = task_id t"
    using 1(1) by (simp add: advance_def same_identity_def)
  with 1 2 advance_trans[OF 1(1) 2(1)] settled_from[OF 2(4) 1(3) 1(5)] show ?thesis
    by simp
next
  case (Inr b)
  then obtain res t1 s1 where b: "processTask_execute rs t s = Inr (res, t1, s1)"
    by (cases b) auto
  from execute_advance(2)[OF b] have
    1: "advance t s t1 s1" "hops (envelope t1) = hops (envelope t) + 1"
       "queue s1 = queue s" "processing s1 = processing s" "done_list s1 = done_list s"
    by simp_all
  have id1: "task_id t1 = task_id t"
    using 1(1) by (simp add: advance_def same_identity_def)
  from pass_tail[OF b assms] have
    2: "advance t1 (call VerifyResult t1 s1) t' s'" "hops (envelope t') = hops (envelope t1)"
       "processing s' = AList.delete (task_id t1) (processing s1)" "settled s1 t' s'"
    by simp_all
  from advance_trans[OF advance_trans[OF 1(1) call_advance] 2(1)] 1 2 id1
    settled_from[OF 2(4) 1(3) 1(5)] show ?thesis
    by simp
qed

subsection \<open>Polls and ends of passes\<close>

lemma tick_unfold:
  "tick rs s =
     (if at_capacity s then s
      else (case queue s of
              [] \<Rightarrow> s
            | t # rest \<Rightarrow>
                snd (run_pass rs t
                       (s\<lparr> queue := rest,
                          processing := AList.update (task_id t) t (processing s) \<rparr>))))"
  by (simp add: tick_def admit_def finish_def split: list.splits)

lemma tick_steps: "tick rs s = s \<or> tick rs s = finish (length (in_flight s)) rs (admit s)"
  by (simp add: tick_def)

lemma admit_cases:
  "admit s = s \<or>
   (\<exists>t rest. queue s = t # rest \<and>
      admit s = s\<lparr> queue := rest, processing := AList.update (task_id t) t (processing s),
                   in_flight := in_flight s @ [t] \<rparr>)"
  by (simp add: admit_def split: list.splits)

text \<open>The end of a pass, for the task \<open>h\<close> in flight at position \<open>i\<close>.\<close>

lemma finish_cases:
  "finish i rs s = s \<or>
   (i < length (in_flight s) \<and>
    finish i rs s
      = snd (run_pass rs (in_flight s ! i)
               (s\<lparr> in_flight := take i (in_flight s) @ drop (Suc i) (in_flight s) \<rparr>)))"
  by (simp add: finish_def)

lemma set_without_nth: "set (take i xs @ drop (Suc i) xs) \<subseteq> set xs"
  using set_take_subset[of i xs] set_drop_subset[of "Suc i" xs] by auto

lemma mset_without_nth:
  "i < length xs \<Longrightarrow> mset (take i xs @ drop (Suc i) xs) + {#xs ! i#} = mset xs"
proof -
  assume "i < length xs"
  then have "xs = take i xs @ xs ! i # drop (Suc i) xs"
    by (rule id_take_nth_drop)
  then have "mset xs = mset (take i xs @ xs ! i # drop (Suc i) xs)"
    by simp
  then show ?thesis
    by simp
qed

subsection \<open>Tasks that have left the scheduler do not come back\<close>

lemma delete_keys_set: "fst ` set (AList.delete k al) = fst ` set al - {k}"
proof -
  have "fst ` set (AList.delete k al) = set (map fst (AList.delete k al))"
    by simp
  also have "\<dots> = set (map fst al) - {k}"
    by (simp only: delete_keys set_removeAll)
  finally show ?thesis by simp
qed

lemma admit_managed: "managed (admit s) \<subseteq> managed s"
proof -
  { fix t rest
    assume q: "queue s = t # rest"
    let ?s1 = "s\<lparr> queue := rest, processing := AList.update (task_id t) t (processing s),
                  in_flight := in_flight s @ [t] \<rparr>"
    have "processing_ids ?s1 = insert (task_id t) (processing_ids s)"
      by (simp add: processing_ids_def dom_update)
    moreover have "pending_ids s = insert (task_id t) (pending_ids ?s1)"
      using q by (simp add: pending_ids_def)
    moreover have "in_flight_ids ?s1 = insert (task_id t) (in_flight_ids s)"
      by (simp add: in_flight_ids_def)
    ultimately have "managed ?s1 \<subseteq> managed s"
      unfolding managed_def by blast }
  then show ?thesis
    using admit_cases[of s] by auto
qed

lemma pass_managed:
  assumes "run_pass rs h s1 = (t', s')"
  shows "managed s' \<subseteq> managed s1 \<union> {task_id h}"
proof -
  from run_pass_advance[OF assms] have
    a: "task_id t' = task_id h"
       "processing s' = AList.delete (task_id h) (processing s1)"
       "queue s' = queue s1 \<or> queue s' = queue s1 @ [t']"
       "in_flight s' = in_flight s1"
    by (auto simp: advance_def same_identity_def settled_def)
  then show ?thesis
    by (auto simp: managed_def pending_ids_def processing_ids_def in_flight_ids_def
                   delete_keys_set)
qed

lemma finish_managed: "managed (finish i rs s) \<subseteq> managed s"
proof -
  { assume i: "i < length (in_flight s)"
    let ?h = "in_flight s ! i"
    let ?s1 = "s\<lparr> in_flight := take i (in_flight s) @ drop (Suc i) (in_flight s) \<rparr>"
    obtain t' s' where r: "run_pass rs ?h ?s1 = (t', s')"
      by (cases "run_pass rs ?h ?s1") auto
    have "task_id ?h \<in> managed s"
      using i by (simp add: managed_def in_flight_ids_def)
    moreover have "managed ?s1 \<subseteq> managed s"
      using set_without_nth[of i "in_flight s"]
      by (auto simp: managed_def pending_ids_def processing_ids_def in_flight_ids_def)
    ultimately have "managed (snd (run_pass rs ?h ?s1)) \<subseteq> managed s"
      using pass_managed[OF r] r by auto }
  then show ?thesis
    using finish_cases[of i rs s] by auto
qed

lemma tick_managed: "managed (tick rs s) \<subseteq> managed s"
  using tick_steps[of rs s] finish_managed[of "length (in_flight s)" rs "admit s"]
        admit_managed[of s]
  by auto

lemma run_managed: "managed (run evs s) \<subseteq> managed s \<union> enqueued evs"
proof (induction evs arbitrary: s)
  case Nil
  show ?case by simp
next
  case (Cons e evs)
  have "managed (step e s) \<subseteq> managed s \<union> enqueued [e]"
  proof (cases e)
    case (Enqueue u)
    then show ?thesis
      by (auto simp: managed_def pending_ids_def processing_ids_def in_flight_ids_def
                     enqueue_def enqueued_def)
  next
    case Admit
    then show ?thesis
      using admit_managed[of s] by auto
  next
    case (Finish i rs)
    then show ?thesis
      using finish_managed[of i rs s] by auto
  next
    case (Tick rs)
    then show ?thesis
      using tick_managed[of rs s] by auto
  qed
  moreover have "enqueued (e # evs) = enqueued [e] \<union> enqueued evs"
    by (cases e) (simp_all add: enqueued_def)
  ultimately show ?case
    using Cons[of "step e s"] by auto
qed

lemma gone_for_good:
  "tid \<notin> managed s \<Longrightarrow> tid \<notin> enqueued evs \<Longrightarrow> tid \<notin> managed (run evs s)"
  using run_managed[of evs s] by auto

section \<open>Counters\<close>

text \<open>
  Claim C2. The claim: the failure handler updates the envelope as the RETRY branch does,
  and records the message in addition. After three RETRY verdicts the task is escalated;
  on the fourth pass the deep analysis gives a revised plan, which sets the mode back to
  EXECUTE. If the verifier then answers RETRY the mode stays EXECUTE, since the task is
  already escalated; if the verification call fails instead, the failure handler, which
  has no such guard, forces the mode to ARCHITECT again. The two also differ on the
  success counter, which only the RETRY branch resets.
\<close>

theorem failure_handler_differs_from_retry:
  "map (\<lambda>t. (mode (envelope t), escalated (envelope t), consecutive_failures (envelope t)))
     (queue (run (Enqueue task0 # replicate 3 (Tick rs_retry) @ [Tick rs_revised_retry]) queue0))
     = [(''EXECUTE'', True, 4)] \<and>
   map (\<lambda>t. (mode (envelope t), escalated (envelope t), consecutive_failures (envelope t)))
     (queue (run (Enqueue task0 # replicate 3 (Tick rs_retry) @ [Tick rs_revised_down]) queue0))
     = [(''ARCHITECT'', True, 4)] \<and>
   consecutive_successes (envelope (fst (retry_branch task_recovered queue0))) = 0 \<and>
   consecutive_successes (envelope (fst (handleFailure ''x'' task_recovered queue0))) = 1"
  by code_simp

section \<open>Unparsable verdicts\<close>

text \<open>
  Claim C3, as stated: a verification reply that is not JSON is handled as a RETRY
  (failure counter incremented, task queued again). On the code the pass ends in the
  final \<^verbatim>\<open>else\<close>: the status is \<^verbatim>\<open>needs-human\<close>, the failure counter is
  still zero and the queue is empty.
\<close>

theorem unparsed_verdict_is_not_retry:
  "fst (processTask rs_garbled task0 queue0) = None \<and>
   status (fst (run_pass rs_garbled task0 queue0)) = NeedsHuman \<and>
   consecutive_failures (envelope (fst (run_pass rs_garbled task0 queue0))) = 0 \<and>
   queue (snd (run_pass rs_garbled task0 queue0)) = []"
  by code_simp

text \<open>
  Claim C3, amended. When the pass reaches verification and the verification call returns
  on a reply that cannot be parsed, the verdict is the object \<^verbatim>\<open>{ raw: text }\<close>, which
  has no \<^verbatim>\<open>status\<close>; \<^verbatim>\<open>processTask\<close> throws nothing, so the failure handler does
  not run; the task gets the status \<^verbatim>\<open>needs-human\<close> and that verdict, its envelope
  stays as it was at verification, with the counters it had when the pass began; it is
  removed from the tasks in flight and pushed neither on the queue nor on the list of
  done tasks.
\<close>

theorem unparsed_verdict_needs_human:
  assumes "processTask_execute rs t s = Inr (res, t1, s1)"
      and "verify_reply rs = Unparsed txt"
      and "verifyResult rs t1 res = Inr v"
  shows "v = JObj [(''raw'', JStr txt)] \<and>
         get_prop v ''status'' = None \<and>
         fst (processTask rs t s) = None \<and>
         fst (run_pass rs t s) = t1\<lparr> status := NeedsHuman, verification := Some v \<rparr> \<and>
         consecutive_failures (envelope (fst (run_pass rs t s)))
           = consecutive_failures (envelope t) \<and>
         consecutive_successes (envelope (fst (run_pass rs t s)))
           = consecutive_successes (envelope t) \<and>
         escalated (envelope (fst (run_pass rs t s))) = escalated (envelope t) \<and>
         queue (snd (run_pass rs t s)) = queue s \<and>
         done_list (snd (run_pass rs t s)) = done_list s \<and>
         task_id t \<notin> processing_ids (snd (run_pass rs t s))"
proof -
  have v: "v = JObj [(''raw'', JStr txt)]"
    using assms(2,3) by (auto simp: verifyResult_def split: sum.splits if_splits)
  have p: "processTask rs t s = (None, escalate_branch v t1 (call VerifyResult t1 s1))"
    using assms(1,3) v
    by (simp add: processTask_def processTask_verdict_def split: prod.splits)
  have r: "run_pass rs t s = escalate_branch v t1 (call VerifyResult t1 s1)"
    using p by (simp add: run_pass_def split: prod.splits)
  from execute_advance(2)[OF assms(1)] have
    f: "task_id t1 = task_id t" "queue s1 = queue s" "done_list s1 = done_list s"
    by (simp_all add: advance_def same_identity_def)
  note c = execute_counters(2)[OF assms(1)]
  have "get_prop v ''status'' = None"
    using v by simp
  then show ?thesis
    using p f c v unfolding r
    by (simp add: escalate_branch_def Let_def effect_defs processing_ids_def delete_keys_set)
qed

theorem unparsed_verdict_needs_human_witness:
  "verify_reply rs_garbled = Unparsed ''Sure! Here is the result'' \<and>
   \<not> isl (processTask_execute rs_garbled task0 queue0) \<and>
   fst (processTask rs_garbled task0 queue0) = None \<and>
   status (fst (run_pass rs_garbled task0 queue0)) = NeedsHuman \<and>
   verification (fst (run_pass rs_garbled task0 queue0))
     = Some (JObj [(''raw'', JStr ''Sure! Here is the result'')]) \<and>
   queue (snd (run_pass rs_garbled task0 queue0)) = queue queue0"
proof -
  have h2: "verify_reply rs_garbled = Unparsed ''Sure! Here is the result''"
    by (simp add: rs_garbled_def answers_def)
  have n: "\<not> isl (processTask_execute rs_garbled task0 queue0)"
    by code_simp
  then obtain res t1 s1 where h1: "processTask_execute rs_garbled task0 queue0 = Inr (res, t1, s1)"
    by (cases "processTask_execute rs_garbled task0 queue0") auto
  have "fst (processTask rs_garbled task0 queue0) = None"
    by code_simp
  then obtain v where h3: "verifyResult rs_garbled t1 res = Inr v"
    using h1 by (cases "verifyResult rs_garbled t1 res") (simp_all add: processTask_def)
  from unparsed_verdict_needs_human[OF h1 h2 h3] h2 n show ?thesis
    by simp
qed

section \<open>Escalation and the hop ceiling\<close>

lemma pass_branch_envelope:
  "envelope (fst (pass_branch v res t s))
     = (if 2 \<le> consecutive_successes (envelope t) + 1 \<and> escalated (envelope t)
        then (envelope t)\<lparr> consecutive_successes := consecutive_successes (envelope t) + 1,
                           consecutive_failures := 0, mode := ''EXECUTE'', escalated := False \<rparr>
        else (envelope t)\<lparr> consecutive_successes := consecutive_successes (envelope t) + 1,
                           consecutive_failures := 0 \<rparr>)"
  by (simp add: pass_branch_def Let_def)

lemma retry_branch_envelope:
  "envelope (fst (retry_branch t s))
     = (if hops (envelope t) < ttl_max (envelope t)
           \<and> 3 \<le> consecutive_failures (envelope t) + 1 \<and> \<not> escalated (envelope t)
        then (envelope t)\<lparr> consecutive_failures := consecutive_failures (envelope t) + 1,
                           consecutive_successes := 0, mode := ''ARCHITECT'', escalated := True \<rparr>
        else (envelope t)\<lparr> consecutive_failures := consecutive_failures (envelope t) + 1,
                           consecutive_successes := 0 \<rparr>)"
  by (simp add: retry_branch_def Let_def)

lemma escalate_branch_envelope: "envelope (fst (escalate_branch v t s)) = envelope t"
  by (simp add: escalate_branch_def Let_def)

lemma handleFailure_envelope:
  "envelope (fst (handleFailure msg t s))
     = (if hops (envelope t) < ttl_max (envelope t) \<and> 3 \<le> consecutive_failures (envelope t) + 1
        then (envelope t)\<lparr> consecutive_failures := consecutive_failures (envelope t) + 1,
                           mode := ''ARCHITECT'', escalated := True \<rparr>
        else (envelope t)\<lparr> consecutive_failures := consecutive_failures (envelope t) + 1 \<rparr>)"
  by (simp add: handleFailure_def Let_def)




text \<open>
  Claim C5. Let \<open>t\<close> be a task whose hop count is at or above its ceiling when it receives
  a RETRY verdict or a failure: \<open>t\<close> is the task for which \<^verbatim>\<open>processTask\<close> handles a
  verdict with status RETRY, or the task as the dispatch of a pass leaves it when the
  verification of that pass answers RETRY, or the task as a pass leaves it when
  \<^verbatim>\<open>processTask\<close> throws; \<open>s\<close> is the scheduler at that moment and \<open>r\<close> the outcome of
  the verdict handling, or of the whole pass. Then the task gets the status
  \<^verbatim>\<open>dead-lettered\<close> and is written to the dead-letter store; mode and
  \<^verbatim>\<open>escalated\<close> are left as they were whatever the failure counter, which is
  incremented, since the escalation test is not reached; the task is deleted from the
  map of tasks being processed and not pushed on the queue; and unless another copy of it
  was still pending or in flight, or it is submitted again, no later history of
  submissions, polls and ends of passes brings its id back among the tasks that are
  pending, being processed or in flight.
\<close>

theorem ttl_wins_over_escalation:
  assumes "ttl_max (envelope t) \<le> hops (envelope t)"
      and "(get_prop v ''status'' = Some (JStr ''RETRY'') \<and> r = processTask_verdict v res t s)
           \<or> (verdict_of rs t0 s0 = Some (JStr ''RETRY'')
               \<and> processTask_execute rs t0 s0 = Inr (res, t, s1)
               \<and> s = call VerifyResult t s1 \<and> r = run_pass rs t0 s0)
           \<or> (processTask rs t0 s0 = (Some msg, t, s) \<and> r = run_pass rs t0 s0)"
  shows "status (fst r) = DeadLettered \<and>
         mode (envelope (fst r)) = mode (envelope t) \<and>
         escalated (envelope (fst r)) = escalated (envelope t) \<and>
         consecutive_failures (envelope (fst r)) = consecutive_failures (envelope t) + 1 \<and>
         emitted s (snd r) = [Save (fst r), DeadLetterWrite (fst r)] \<and>
         queue (snd r) = queue s \<and>
         done_list (snd r) = done_list s \<and>
         task_id t \<notin> processing_ids (snd r) \<and>
         (task_id t \<notin> pending_ids s \<longrightarrow> task_id t \<notin> in_flight_ids s
            \<longrightarrow> task_id t \<notin> enqueued evs
            \<longrightarrow> task_id t \<notin> managed (run evs (snd r)))"
proof -
  have branch: "r = retry_branch t s \<or> r = handleFailure msg t s"
    using assms(2)
  proof (elim disjE conjE)
    assume "get_prop v ''status'' = Some (JStr ''RETRY'')" "r = processTask_verdict v res t s"
    then show ?thesis
      by (simp add: processTask_verdict_def)
  next
    assume v: "verdict_of rs t0 s0 = Some (JStr ''RETRY'')"
       and e: "processTask_execute rs t0 s0 = Inr (res, t, s1)"
       and s: "s = call VerifyResult t s1" and r: "r = run_pass rs t0 s0"
    from v e obtain w where w: "verifyResult rs t res = Inr w"
        "get_prop w ''status'' = Some (JStr ''RETRY'')"
      by (auto simp: verdict_of_def split: sum.splits)
    then have "processTask_verdict w res t s = retry_branch t s"
      by (simp add: processTask_verdict_def)
    with e w s r show ?thesis
      by (simp add: run_pass_def processTask_def split: prod.splits)
  next
    assume "processTask rs t0 s0 = (Some msg, t, s)" "r = run_pass rs t0 s0"
    then show ?thesis
      by (simp add: run_pass_def)
  qed
  have sched: "snd r = s\<lparr> trace := trace s @ [Save (fst r), DeadLetterWrite (fst r)],
                           processing := AList.delete (task_id t) (processing s) \<rparr>"
    using assms(1) branch by (auto simp: retry_branch_sched handleFailure_sched)
  have st: "status (fst r) = DeadLettered"
    using assms(1) branch by (auto simp: retry_branch_task handleFailure_task)
  have env: "mode (envelope (fst r)) = mode (envelope t)
             \<and> escalated (envelope (fst r)) = escalated (envelope t)
             \<and> consecutive_failures (envelope (fst r)) = consecutive_failures (envelope t) + 1"
    using assms(1) branch by (auto simp: retry_branch_envelope handleFailure_envelope)
  have out: "task_id t \<notin> processing_ids (snd r)"
    by (simp add: sched processing_ids_def delete_keys_set)
  have q: "queue (snd r) = queue s" "done_list (snd r) = done_list s"
    by (simp_all add: sched)
  have em: "emitted s (snd r) = [Save (fst r), DeadLetterWrite (fst r)]"
    by (simp add: sched emitted_def)
  have fl: "in_flight (snd r) = in_flight s"
    by (simp add: sched)
  have "task_id t \<notin> managed (run evs (snd r))"
    if "task_id t \<notin> pending_ids s" "task_id t \<notin> in_flight_ids s"
       "task_id t \<notin> enqueued evs"
  proof -
    have "task_id t \<notin> managed (snd r)"
      using that(1,2) out q fl by (simp add: managed_def pending_ids_def in_flight_ids_def)
    then show ?thesis
      using that(3) by (rule gone_for_good)
  qed
  with st env out q em show ?thesis
    by blast
qed

theorem ttl_wins_over_escalation_witness:
  "ttl_max (envelope task_at_ttl) \<le> hops (envelope task_at_ttl) \<and>
   get_prop (verdict_json ''RETRY'') ''status'' = Some (JStr ''RETRY'') \<and>
   task_id task_at_ttl \<notin> pending_ids queue_in_flight \<and>
   task_id task_at_ttl \<notin> in_flight_ids queue_in_flight \<and>
   task_id task_at_ttl
     \<notin> enqueued [Enqueue task1, Admit, Tick rs_retry, Finish 0 rs_retry, Tick rs_pass] \<and>
   task_id task_at_ttl \<in> processing_ids queue_in_flight \<and>
   status (fst (processTask_verdict (verdict_json ''RETRY'') JNull task_at_ttl queue_in_flight))
     = DeadLettered \<and>
   consecutive_failures
     (envelope (fst (processTask_verdict (verdict_json ''RETRY'') JNull
                       task_at_ttl queue_in_flight))) = 3 \<and>
   mode (envelope (fst (processTask_verdict (verdict_json ''RETRY'') JNull
                          task_at_ttl queue_in_flight))) = ''EXECUTE'' \<and>
   task_id task_at_ttl
     \<notin> managed (run [Enqueue task1, Admit, Tick rs_retry, Finish 0 rs_retry, Tick rs_pass]
                  (snd (processTask_verdict (verdict_json ''RETRY'') JNull
                          task_at_ttl queue_in_flight))) \<and>
   verdict_of rs_retry task_ttl3 queue0 = Some (JStr ''RETRY'') \<and>
   hops (envelope task_ttl3) + 1 = ttl_max (envelope task_ttl3) \<and>
   status (fst (run_pass rs_retry task_ttl3 queue0)) = DeadLettered \<and>
   escalated (envelope (fst (run_pass rs_retry task_ttl3 queue0)))
     = escalated (envelope task_ttl3) \<and>
   queue (snd (run_pass rs_retry task_ttl3 queue0)) = [] \<and>
   fst (processTask rs_plan_down task_at_ttl queue_in_flight)
     = Some ''Gemini API error (503): unavailable'' \<and>
   status (fst (run_pass rs_plan_down task_at_ttl queue_in_flight)) = DeadLettered \<and>
   mode (envelope (fst (run_pass rs_plan_down task_at_ttl queue_in_flight))) = ''EXECUTE'' \<and>
   consecutive_failures (envelope (fst (run_pass rs_plan_down task_at_ttl queue_in_flight))) = 3"
proof -
  let ?evs = "[Enqueue task1, Admit, Tick rs_retry, Finish 0 rs_retry, Tick rs_pass]"
  let ?r = "processTask_verdict (verdict_json ''RETRY'') JNull task_at_ttl queue_in_flight"
  have h1: "ttl_max (envelope task_at_ttl) \<le> hops (envelope task_at_ttl)"
    by code_simp
  have h0: "get_prop (verdict_json ''RETRY'') ''status'' = Some (JStr ''RETRY'')"
    by code_simp
  have h2: "task_id task_at_ttl \<notin> pending_ids queue_in_flight"
    by code_simp
  have h3: "task_id task_at_ttl \<notin> in_flight_ids queue_in_flight"
    by code_simp
  have h4: "task_id task_at_ttl \<notin> enqueued ?evs"
    by code_simp
  have h5: "task_id task_at_ttl \<in> processing_ids queue_in_flight"
    by code_simp
  have m: "mode (envelope task_at_ttl) = ''EXECUTE''"
          "consecutive_failures (envelope task_at_ttl) + 1 = 3"
    by code_simp+
  have a: "(get_prop (verdict_json ''RETRY'') ''status'' = Some (JStr ''RETRY'')
             \<and> ?r = processTask_verdict (verdict_json ''RETRY'') JNull task_at_ttl queue_in_flight)
           \<or> (verdict_of rs_retry task0 queue0 = Some (JStr ''RETRY'')
               \<and> processTask_execute rs_retry task0 queue0 = Inr (JNull, task_at_ttl, queue0)
               \<and> queue_in_flight = call VerifyResult task_at_ttl queue0
               \<and> ?r = run_pass rs_retry task0 queue0)
           \<or> (processTask rs_retry task0 queue0 = (Some ''unused'', task_at_ttl, queue_in_flight)
               \<and> ?r = run_pass rs_retry task0 queue0)"
    using h0 by simp
  from ttl_wins_over_escalation[where evs = ?evs, OF h1 a]
  have first: "status (fst ?r) = DeadLettered
      \<and> consecutive_failures (envelope (fst ?r)) = 3
      \<and> mode (envelope (fst ?r)) = ''EXECUTE''
      \<and> task_id task_at_ttl \<notin> managed (run ?evs (snd ?r))"
    using h2 h3 h4 m by simp
  have v: "verdict_of rs_retry task_ttl3 queue0 = Some (JStr ''RETRY'')"
    by code_simp
  have c: "hops (envelope task_ttl3) + 1 = ttl_max (envelope task_ttl3)"
          "queue queue0 = []"
    by code_simp+
  have "\<not> isl (processTask_execute rs_retry task_ttl3 queue0)"
    by code_simp
  then obtain res t1 s1 where
    e: "processTask_execute rs_retry task_ttl3 queue0 = Inr (res, t1, s1)"
    by (cases "processTask_execute rs_retry task_ttl3 queue0") auto
  from execute_advance(2)[OF e] execute_counters(2)[OF e] c have
    t1: "ttl_max (envelope t1) \<le> hops (envelope t1)"
        "escalated (envelope t1) = escalated (envelope task_ttl3)"
        "queue s1 = []"
    by (simp_all add: advance_def same_identity_def)
  have b: "(get_prop JNull ''status'' = Some (JStr ''RETRY'')
             \<and> run_pass rs_retry task_ttl3 queue0
                 = processTask_verdict JNull res t1 (call VerifyResult t1 s1))
           \<or> (verdict_of rs_retry task_ttl3 queue0 = Some (JStr ''RETRY'')
               \<and> processTask_execute rs_retry task_ttl3 queue0 = Inr (res, t1, s1)
               \<and> call VerifyResult t1 s1 = call VerifyResult t1 s1
               \<and> run_pass rs_retry task_ttl3 queue0 = run_pass rs_retry task_ttl3 queue0)
           \<or> (processTask rs_retry task_ttl3 queue0
                 = (Some ''unused'', t1, call VerifyResult t1 s1)
               \<and> run_pass rs_retry task_ttl3 queue0 = run_pass rs_retry task_ttl3 queue0)"
    using v e by simp
  from ttl_wins_over_escalation[where evs = "[]", OF t1(1) b] t1(2,3)
  have second: "status (fst (run_pass rs_retry task_ttl3 queue0)) = DeadLettered
      \<and> escalated (envelope (fst (run_pass rs_retry task_ttl3 queue0)))
          = escalated (envelope task_ttl3)
      \<and> queue (snd (run_pass rs_retry task_ttl3 queue0)) = []"
    by (simp add: call_def)
  have p: "fst (processTask rs_plan_down task_at_ttl queue_in_flight)
             = Some ''Gemini API error (503): unavailable''"
    by code_simp
  obtain t2 s2 where
    th: "processTask rs_plan_down task_at_ttl queue_in_flight
           = (Some ''Gemini API error (503): unavailable'', t2, s2)"
    using p by (cases "processTask rs_plan_down task_at_ttl queue_in_flight") auto
  have k: "ttl_max (envelope (fst (snd (processTask rs_plan_down task_at_ttl queue_in_flight))))
             \<le> hops (envelope (fst (snd (processTask rs_plan_down task_at_ttl queue_in_flight))))"
           "consecutive_failures
              (envelope (fst (snd (processTask rs_plan_down task_at_ttl queue_in_flight)))) + 1 = 3"
           "mode (envelope (fst (snd (processTask rs_plan_down task_at_ttl queue_in_flight))))
              = ''EXECUTE''"
    by code_simp+
  from k th have
    t2: "ttl_max (envelope t2) \<le> hops (envelope t2)"
        "consecutive_failures (envelope t2) + 1 = 3"
    and m2: "mode (envelope t2) = ''EXECUTE''"
    by simp_all
  have d: "(get_prop JNull ''status'' = Some (JStr ''RETRY'')
             \<and> run_pass rs_plan_down task_at_ttl queue_in_flight
                 = processTask_verdict JNull JNull t2 s2)
           \<or> (verdict_of rs_plan_down task_at_ttl queue_in_flight = Some (JStr ''RETRY'')
               \<and> processTask_execute rs_plan_down task_at_ttl queue_in_flight
                   = Inr (JNull, t2, s2)
               \<and> s2 = call VerifyResult t2 s2
               \<and> run_pass rs_plan_down task_at_ttl queue_in_flight
                   = run_pass rs_plan_down task_at_ttl queue_in_flight)
           \<or> (processTask rs_plan_down task_at_ttl queue_in_flight
                 = (Some ''Gemini API error (503): unavailable'', t2, s2)
               \<and> run_pass rs_plan_down task_at_ttl queue_in_flight
                   = run_pass rs_plan_down task_at_ttl queue_in_flight)"
    using th by simp
  from ttl_wins_over_escalation[where evs = "[]", OF t2(1) d] t2(2) m2
  have third: "status (fst (run_pass rs_plan_down task_at_ttl queue_in_flight)) = DeadLettered
      \<and> mode (envelope (fst (run_pass rs_plan_down task_at_ttl queue_in_flight))) = ''EXECUTE''
      \<and> consecutive_failures
          (envelope (fst (run_pass rs_plan_down task_at_ttl queue_in_flight))) = 3"
    by simp
  from h1 h0 h2 h3 h4 h5 first v c(1) second p third show ?thesis
    by blast
qed

section \<open>The executing phase\<close>

lemma execute_plan_failed:
  "planExecution rs t = Inl err \<Longrightarrow>
     processTask_execute rs t s
       = Inl (err, classifying t,
              s\<lparr> trace := trace s @ [Save (classifying t), Call PlanExecution (classifying t)] \<rparr>)"
  using planExecution_any_task[of rs t "classifying t"]
  by (simp add: processTask_execute_def classifying_def effect_defs Let_def)

lemma execute_planned:
  "planExecution rs t = Inr p \<Longrightarrow>
     processTask_execute rs t s
       = (case dispatch rs p (executing p t)
                 (s\<lparr> trace := trace s @ [Save (classifying t), Call PlanExecution (classifying t),
                                          Save (planned p t), Save (executing p t)] \<rparr>) of
            Inl thrown \<Rightarrow> Inl thrown
          | Inr (res, t4, s4) \<Rightarrow>
              Inr (res, t4\<lparr> status := Verifying \<rparr>, saveTask (t4\<lparr> status := Verifying \<rparr>) s4))"
  using planExecution_any_task[of rs t "t\<lparr> status := Classifying \<rparr>"]
  by (simp add: processTask_execute_def classifying_def planned_def executing_def
                effect_defs Let_def split: sum.splits prod.splits)

lemma dispatch_trace:
  "dispatch rs p t s = Inl (err, t', s') \<Longrightarrow>
     t' = t \<and> s' = s\<lparr> trace := trace s @ [Call (entry_for (mode (envelope t))) t] \<rparr>"
  "dispatch rs p t s = Inr (res, t', s') \<Longrightarrow>
     s' = s\<lparr> trace := trace s @ [Call (entry_for (mode (envelope t))) t] \<rparr> \<and>
     hops (envelope t') = hops (envelope t) \<and>
     (mode (envelope t) = ''ARCHITECT'' \<longrightarrow> architectTask rs t = Inr (res, t'))"
  by (auto simp: dispatch_def entry_for_def call_def architectTask_def
           split: sum.splits if_splits)

lemma executing_facts:
  "hops (envelope (executing p t)) = hops (envelope t) + 1"
  "mode (envelope (executing p t)) = mode (envelope t)"
  "hops (envelope (planned p t)) = hops (envelope t)"
  "hops (envelope (classifying t)) = hops (envelope t)"
  by (simp_all add: executing_def planned_def classifying_def inc_hops_def)

lemma calls_append: "calls (xs @ ys) = calls xs @ calls ys"
  by (induction xs rule: calls.induct) simp_all

text \<open>What a pass emits when the planning call has returned: the three saves around
  the planning call, the dispatch of the task whose hop count has just been incremented,
  and then only states with that hop count; the verification call follows when the
  dispatch has returned.\<close>

lemma planned_pass_trace:
  assumes pl: "planExecution rs t = Inr p"
  shows "\<exists>rest. emitted s (snd (run_pass rs t s))
                  = [Save (classifying t), Call PlanExecution (classifying t),
                     Save (planned p t), Save (executing p t),
                     Call (entry_for (mode (envelope t))) (executing p t)] @ rest
                \<and> (\<forall>e \<in> set rest. hops_of e = hops (envelope t) + 1)
                \<and> hops (envelope (fst (run_pass rs t s))) = hops (envelope t) + 1
                \<and> (case processTask_execute rs t s of
                      Inl thrown \<Rightarrow> calls rest = []
                    | Inr (res, t5, s5) \<Rightarrow>
                        (\<exists>tail. rest = [Save t5, Call VerifyResult t5] @ tail
                                \<and> calls tail = []))"
proof -
  let ?pre = "[Save (classifying t), Call PlanExecution (classifying t),
               Save (planned p t), Save (executing p t)]"
  let ?s3 = "s\<lparr> trace := trace s @ ?pre \<rparr>"
  let ?c = "Call (entry_for (mode (envelope t))) (executing p t)"
  obtain t' s' where r: "run_pass rs t s = (t', s')"
    by (cases "run_pass rs t s") auto
  show ?thesis
  proof (cases "dispatch rs p (executing p t) ?s3")
    case (Inl a)
    then obtain err t4 s4 where d: "dispatch rs p (executing p t) ?s3 = Inl (err, t4, s4)"
      by (cases a) auto
    from dispatch_trace(1)[OF d] have
      4: "t4 = executing p t" "s4 = ?s3\<lparr> trace := trace ?s3 @ [?c] \<rparr>"
      by (simp_all add: executing_facts)
    have ex: "processTask_execute rs t s = Inl (err, t4, s4)"
      using execute_planned[OF pl, of s] d by simp
    with r have h: "handleFailure err t4 s4 = (t', s')"
      by (simp add: run_pass_def processTask_def)
    have s': "s' = snd (handleFailure err t4 s4)" and t': "t' = fst (handleFailure err t4 s4)"
      using h by simp_all
    have ht: "hops (envelope t') = hops (envelope t) + 1"
      unfolding t' using 4 by (simp add: handleFailure_task executing_facts)
    have "\<exists>rest. emitted s s' = ?pre @ [?c] @ rest
                    \<and> (\<forall>e \<in> set rest. hops_of e = hops (envelope t) + 1)
                    \<and> calls rest = []"
      unfolding s' handleFailure_sched 4
      by (simp add: emitted_def hops_of_def handleFailure_task executing_facts)
    then show ?thesis
      unfolding r ex using ht by simp
  next
    case (Inr b)
    then obtain res t4 s4 where d: "dispatch rs p (executing p t) ?s3 = Inr (res, t4, s4)"
      by (cases b) auto
    from dispatch_trace(2)[OF d] have
      4: "s4 = ?s3\<lparr> trace := trace ?s3 @ [?c] \<rparr>"
         "hops (envelope t4) = hops (envelope t) + 1"
      by (simp_all add: executing_facts)
    let ?t5 = "t4\<lparr> status := Verifying \<rparr>"
    let ?s5 = "saveTask ?t5 s4"
    have ex: "processTask_execute rs t s = Inr (res, ?t5, ?s5)"
      using execute_planned[OF pl, of s] d by simp
    have h5: "hops (envelope ?t5) = hops (envelope t) + 1"
      using 4(2) by simp
    let ?s6 = "call VerifyResult ?t5 ?s5"
    from pass_tail[OF ex r] have
      a: "advance ?t5 ?s6 t' s'" and ht: "hops (envelope t') = hops (envelope ?t5)"
      by simp_all
    from a have tr: "trace s' = trace ?s6 @ emitted ?s6 s'"
      by (simp add: advance_def trace_extended)
    have hs: "\<forall>e \<in> set (emitted ?s6 s'). hops_of e = hops (envelope t) + 1"
      using a ht h5 unfolding advance_def by fastforce
    have nc: "calls (emitted ?s6 s') = []"
    proof (cases "verifyResult rs ?t5 res")
      case (Inl err)
      with ex r have "s' = snd (handleFailure err ?t5 ?s6)"
        by (simp add: run_pass_def processTask_def)
      then show ?thesis
        by (simp add: handleFailure_sched emitted_def)
    next
      case (Inr v)
      with ex r have "s' = snd (processTask_verdict v res ?t5 ?s6)"
        by (simp add: run_pass_def processTask_def split: prod.splits)
      then show ?thesis
        by (simp add: processTask_verdict_def pass_branch_sched retry_branch_sched
                      escalate_branch_sched emitted_def)
    qed
    let ?rest = "[Save ?t5, Call VerifyResult ?t5] @ emitted ?s6 s'"
    have e: "emitted s s' = ?pre @ [?c] @ ?rest"
      unfolding emitted_def[of s s'] tr by (simp add: 4 effect_defs)
    have hr: "\<forall>e \<in> set ?rest. hops_of e = hops (envelope t) + 1"
      using hs h5 by (simp add: hops_of_def)
    show ?thesis
      unfolding r ex
      by (rule exI[of _ ?rest]) (use e hr nc ht h5 in simp)
  qed
qed

text \<open>
  Claim C8. When a task in ARCHITECT mode has been planned, the entry points that its
  pass calls are the planning and then the deep analysis, followed at most by the
  verification: neither entry point of the executor is called. When the deep analysis
  returns an analysis with a truthy \<^verbatim>\<open>revised_plan\<close> and no truthy
  \<^verbatim>\<open>should_escalate_to_human\<close>, it returns the task with the revised plan as its plan
  and EXECUTE as its mode, and this is the task that gets the status \<^verbatim>\<open>verifying\<close>
  and is handed to the verification.
\<close>

theorem architect_mode_runs_deep_analysis:
  assumes "mode (envelope t) = ''ARCHITECT''"
      and "planExecution rs t = Inr p"
  shows "(\<exists>rest. calls (emitted s (snd (run_pass rs t s)))
                    = [PlanExecution, ArchitectTask] @ rest
                  \<and> set rest \<subseteq> {VerifyResult}) \<and>
         (\<forall>a x. architectTask rs (executing p t) = Inr (a, x)
               \<and> truthy (get_prop a ''revised_plan'')
               \<and> \<not> truthy (get_prop a ''should_escalate_to_human'')
            \<longrightarrow> plan x = get_prop a ''revised_plan''
                \<and> mode (envelope x) = ''EXECUTE''
                \<and> (\<exists>s1. processTask_execute rs t s = Inr (a, x\<lparr> status := Verifying \<rparr>, s1))
                \<and> Call VerifyResult (x\<lparr> status := Verifying \<rparr>)
                     \<in> set (emitted s (snd (run_pass rs t s))))"
proof -
  from planned_pass_trace[OF assms(2), of s] obtain rest where
    e: "emitted s (snd (run_pass rs t s))
          = [Save (classifying t), Call PlanExecution (classifying t),
             Save (planned p t), Save (executing p t),
             Call (entry_for (mode (envelope t))) (executing p t)] @ rest"
    and c: "case processTask_execute rs t s of
              Inl thrown \<Rightarrow> calls rest = []
            | Inr (res, t5, s5) \<Rightarrow>
                (\<exists>tail. rest = [Save t5, Call VerifyResult t5] @ tail \<and> calls tail = [])"
    by blast
  have cr: "set (calls rest) \<subseteq> {VerifyResult}"
    using c by (auto split: sum.splits)
  have 1: "\<exists>rest. calls (emitted s (snd (run_pass rs t s)))
                    = [PlanExecution, ArchitectTask] @ rest
                  \<and> set rest \<subseteq> {VerifyResult}"
    unfolding e using cr assms(1) by (simp add: calls_append entry_for_def)
  have 2: "plan x = get_prop a ''revised_plan''
           \<and> mode (envelope x) = ''EXECUTE''
           \<and> (\<exists>s1. processTask_execute rs t s = Inr (a, x\<lparr> status := Verifying \<rparr>, s1))
           \<and> Call VerifyResult (x\<lparr> status := Verifying \<rparr>)
                \<in> set (emitted s (snd (run_pass rs t s)))"
    if a: "architectTask rs (executing p t) = Inr (a, x)"
          "truthy (get_prop a ''revised_plan'')"
          "\<not> truthy (get_prop a ''should_escalate_to_human'')" for a x
  proof -
    have x: "x = (executing p t)\<lparr> plan := get_prop a ''revised_plan'',
                   envelope := (envelope (executing p t))\<lparr> mode := ''EXECUTE'' \<rparr> \<rparr>"
      using a by (auto simp: architectTask_def split: sum.splits if_splits)
    have m: "mode (envelope (executing p t)) = ''ARCHITECT''"
      using assms(1) by (simp add: executing_facts)
    have "\<exists>s1. processTask_execute rs t s = Inr (a, x\<lparr> status := Verifying \<rparr>, s1)"
      using execute_planned[OF assms(2), of s] a(1) m by (simp add: dispatch_def)
    then obtain s1 where ex: "processTask_execute rs t s = Inr (a, x\<lparr> status := Verifying \<rparr>, s1)"
      by blast
    have "Call VerifyResult (x\<lparr> status := Verifying \<rparr>) \<in> set rest"
      using c unfolding ex by auto
    then have "Call VerifyResult (x\<lparr> status := Verifying \<rparr>)
                 \<in> set (emitted s (snd (run_pass rs t s)))"
      unfolding e by simp
    with ex x show ?thesis
      by auto
  qed
  from 1 2 show ?thesis
    by blast
qed

theorem architect_mode_runs_deep_analysis_witness:
  "mode (envelope task_escalated) = ''ARCHITECT'' \<and>
   planExecution rs_revised_retry task_escalated = Inr plan_ok \<and>
   \<not> isl (architectTask rs_revised_retry (executing plan_ok task_escalated)) \<and>
   fst (projr (architectTask rs_revised_retry (executing plan_ok task_escalated)))
     = analysis_revised \<and>
   truthy (get_prop analysis_revised ''revised_plan'') \<and>
   \<not> truthy (get_prop analysis_revised ''should_escalate_to_human'') \<and>
   ExecuteTask \<notin> set (calls (emitted queue0 (snd (run_pass rs_revised_retry task_escalated queue0)))) \<and>
   plan (snd (projr (architectTask rs_revised_retry (executing plan_ok task_escalated))))
     = Some (JObj [(''steps'', JArr [])]) \<and>
   mode (envelope (snd (projr (architectTask rs_revised_retry (executing plan_ok task_escalated)))))
     = ''EXECUTE''"
proof -
  let ?r = "architectTask rs_revised_retry (executing plan_ok task_escalated)"
  have h1: "mode (envelope task_escalated) = ''ARCHITECT''"
    by code_simp
  have h2: "planExecution rs_revised_retry task_escalated = Inr plan_ok"
    by code_simp
  have h3: "\<not> isl ?r" "fst (projr ?r) = analysis_revised"
           "truthy (get_prop analysis_revised ''revised_plan'')"
           "\<not> truthy (get_prop analysis_revised ''should_escalate_to_human'')"
    by code_simp+
  have h4: "get_prop analysis_revised ''revised_plan'' = Some (JObj [(''steps'', JArr [])])"
    by code_simp
  have h5: "?r = Inr (analysis_revised, snd (projr ?r))"
    using h3(1,2) by (cases ?r) auto
  from architect_mode_runs_deep_analysis[OF h1 h2, of queue0] h5 h3(3,4)
  have "(\<exists>rest. calls (emitted queue0 (snd (run_pass rs_revised_retry task_escalated queue0)))
                    = [PlanExecution, ArchitectTask] @ rest
                  \<and> set rest \<subseteq> {VerifyResult})"
       "plan (snd (projr ?r)) = get_prop analysis_revised ''revised_plan''"
       "mode (envelope (snd (projr ?r))) = ''EXECUTE''"
    by blast+
  with h1 h2 h3 h4 show ?thesis
    by auto
qed

text \<open>
  Claim C9, as stated: every pass increments the hop count exactly once. A pass whose
  planning call fails never reaches the increment: the task is queued again with the hop
  count it had.
\<close>

theorem failed_planning_leaves_hops:
  "hops (envelope task0) = 0 \<and>
   status (fst (run_pass rs_plan_down task0 queue0)) = Retrying \<and>
   queue (snd (run_pass rs_plan_down task0 queue0)) = [fst (run_pass rs_plan_down task0 queue0)] \<and>
   hops (envelope (fst (run_pass rs_plan_down task0 queue0))) = 0"
  by code_simp

text \<open>
  Claim C9, amended. \<^verbatim>\<open>enqueue\<close> appends the task as it is. In a pass whose planning
  call returns, the hop count is incremented once: the task is saved with its old count
  while classifying and when planned, then saved with the count plus one, and the very
  next effect is the call of the entry point its mode selects, with that task; everything
  the pass does afterwards, verification, verdict or failure handling, shows and leaves
  the count plus one. In a pass whose planning call fails the count is not incremented.
  Neither the handling of a verdict nor the failure handler changes the count.
\<close>

theorem hops_incremented_at_dispatch:
  "queue (enqueue t s) = queue s @ [t] \<and>
   (\<forall>p. planExecution rs t = Inr p \<longrightarrow>
      (\<exists>rest. emitted s (snd (run_pass rs t s))
                 = [Save (classifying t), Call PlanExecution (classifying t),
                    Save (planned p t), Save (executing p t),
                    Call (entry_for (mode (envelope t))) (executing p t)] @ rest
             \<and> (\<forall>e \<in> set rest. hops_of e = hops (envelope t) + 1))
      \<and> hops (envelope (classifying t)) = hops (envelope t)
      \<and> hops (envelope (planned p t)) = hops (envelope t)
      \<and> hops (envelope (executing p t)) = hops (envelope t) + 1
      \<and> hops (envelope (fst (run_pass rs t s))) = hops (envelope t) + 1) \<and>
   (\<forall>err. planExecution rs t = Inl err \<longrightarrow>
      (\<forall>e \<in> set (emitted s (snd (run_pass rs t s))). hops_of e = hops (envelope t))
      \<and> hops (envelope (fst (run_pass rs t s))) = hops (envelope t)) \<and>
   hops (envelope (fst (processTask_verdict v res t s))) = hops (envelope t) \<and>
   hops (envelope (fst (handleFailure msg t s))) = hops (envelope t)"
proof -
  have 1: "queue (enqueue t s) = queue s @ [t]"
    by (simp add: enqueue_def)
  have 2: "(\<exists>rest. emitted s (snd (run_pass rs t s))
                 = [Save (classifying t), Call PlanExecution (classifying t),
                    Save (planned p t), Save (executing p t),
                    Call (entry_for (mode (envelope t))) (executing p t)] @ rest
             \<and> (\<forall>e \<in> set rest. hops_of e = hops (envelope t) + 1))
      \<and> hops (envelope (classifying t)) = hops (envelope t)
      \<and> hops (envelope (planned p t)) = hops (envelope t)
      \<and> hops (envelope (executing p t)) = hops (envelope t) + 1
      \<and> hops (envelope (fst (run_pass rs t s))) = hops (envelope t) + 1"
    if "planExecution rs t = Inr p" for p
    using planned_pass_trace[OF that, of s] by (auto simp: executing_facts)
  have 3: "(\<forall>e \<in> set (emitted s (snd (run_pass rs t s))). hops_of e = hops (envelope t))
      \<and> hops (envelope (fst (run_pass rs t s))) = hops (envelope t)"
    if "planExecution rs t = Inl err" for err
  proof -
    let ?s1 = "s\<lparr> trace := trace s @ [Save (classifying t), Call PlanExecution (classifying t)] \<rparr>"
    have "run_pass rs t s = handleFailure err (classifying t) ?s1"
      using execute_plan_failed[OF that, of s] by (simp add: run_pass_def processTask_def)
    then show ?thesis
      by (simp add: handleFailure_sched handleFailure_task emitted_def hops_of_def
                    executing_facts)
  qed
  have 4: "hops (envelope (fst (processTask_verdict v res t s))) = hops (envelope t)"
    by (simp add: processTask_verdict_def pass_branch_task retry_branch_task
                  escalate_branch_task)
  have 5: "hops (envelope (fst (handleFailure msg t s))) = hops (envelope t)"
    by (rule handleFailure_task)
  from 1 2 3 4 5 show ?thesis
    by blast
qed

theorem hops_incremented_at_dispatch_witness:
  "planExecution rs_retry task0 = Inr plan_ok \<and>
   planExecution rs_plan_down task0 = Inl ''Gemini API error (503): unavailable'' \<and>
   hops (envelope task0) = 0 \<and>
   hops (envelope (fst (run_pass rs_retry task0 queue0))) = 1 \<and>
   hops (envelope (fst (run_pass rs_plan_down task0 queue0))) = 0 \<and>
   take 5 (map hops_of (emitted queue0 (snd (run_pass rs_retry task0 queue0)))) = [0, 0, 0, 1, 1]"
proof -
  have h1: "planExecution rs_retry task0 = Inr plan_ok"
    by code_simp
  have h2: "planExecution rs_plan_down task0 = Inl ''Gemini API error (503): unavailable''"
    by code_simp
  have h3: "hops (envelope task0) = 0"
    by code_simp
  from hops_incremented_at_dispatch[of task0 queue0 rs_retry] h1 obtain rest where
    a: "emitted queue0 (snd (run_pass rs_retry task0 queue0))
          = [Save (classifying task0), Call PlanExecution (classifying task0),
             Save (planned plan_ok task0), Save (executing plan_ok task0),
             Call (entry_for (mode (envelope task0))) (executing plan_ok task0)] @ rest"
       "hops (envelope (fst (run_pass rs_retry task0 queue0))) = hops (envelope task0) + 1"
    by blast
  from hops_incremented_at_dispatch[of task0 queue0 rs_plan_down] h2 have
    b: "hops (envelope (fst (run_pass rs_plan_down task0 queue0))) = hops (envelope task0)"
    by blast
  show ?thesis
    using h1 h2 h3 a b by (simp add: hops_of_def executing_facts)
qed

section \<open>Completion\<close>

lemma dispatch_independent:
  "dispatch rs p t s = Inr (res, t', s1) \<Longrightarrow> \<exists>s2. dispatch rs p t sa = Inr (res, t', s2)"
  "dispatch rs p t s = Inl (err, t', s1) \<Longrightarrow> \<exists>s2. dispatch rs p t sa = Inl (err, t', s2)"
  by (auto simp: dispatch_def split: sum.splits if_splits)

text \<open>What the first two phases return does not depend on the scheduler they run in.\<close>

lemma execute_independent:
  assumes "processTask_execute rs t s = Inr (res, t1, s1)"
  shows "\<exists>s2. processTask_execute rs t sa = Inr (res, t1, s2)"
proof (cases "planExecution rs t")
  case (Inl err)
  with assms show ?thesis
    by (simp add: execute_plan_failed)
next
  case (Inr p)
  let ?pre = "[Save (classifying t), Call PlanExecution (classifying t),
               Save (planned p t), Save (executing p t)]"
  from assms obtain t4 s4 where
    d: "dispatch rs p (executing p t) (s\<lparr> trace := trace s @ ?pre \<rparr>) = Inr (res, t4, s4)"
    and t1: "t1 = t4\<lparr> status := Verifying \<rparr>"
    unfolding execute_planned[OF Inr] by (auto split: sum.splits)
  from dispatch_independent(1)[OF d, of "sa\<lparr> trace := trace sa @ ?pre \<rparr>"] obtain s5 where
    "dispatch rs p (executing p t) (sa\<lparr> trace := trace sa @ ?pre \<rparr>) = Inr (res, t4, s5)"
    by blast
  then show ?thesis
    unfolding execute_planned[OF Inr] using t1 by simp
qed

lemma verdict_of_reached:
  assumes "verdict_of rs t s = Some w"
  shows "\<exists>res t1 s1 v. processTask_execute rs t sa = Inr (res, t1, s1)
           \<and> verifyResult rs t1 res = Inr v \<and> get_prop v ''status'' = Some w"
proof -
  from assms obtain res t1 s1 v where
    a: "processTask_execute rs t s = Inr (res, t1, s1)"
       "verifyResult rs t1 res = Inr v" "get_prop v ''status'' = Some w"
    by (auto simp: verdict_of_def split: sum.splits)
  from execute_independent[OF a(1), of sa] a(2,3) show ?thesis
    by blast
qed

lemma run_append: "run (xs @ ys) s = run ys (run xs s)"
  by (induction xs arbitrary: s) simp_all

text \<open>One poll of a scheduler that holds a single pending task and processes none,
  when the pass obtains a RETRY below the ceiling, and when it obtains a PASS.\<close>

lemma retry_tick:
  assumes q: "queue s = [t]" and pr: "processing s = []" and cap: "\<not> at_capacity s"
      and v: "verdict_of rs t s = Some (JStr ''RETRY'')"
      and h: "hops (envelope t) + 1 < ttl_max (envelope t)"
  shows "\<exists>t'. queue (tick rs s) = [t'] \<and> processing (tick rs s) = []
           \<and> \<not> at_capacity (tick rs s) \<and> done_list (tick rs s) = done_list s
           \<and> hops (envelope t') = hops (envelope t) + 1
           \<and> ttl_max (envelope t') = ttl_max (envelope t)
           \<and> consecutive_failures (envelope t') = consecutive_failures (envelope t) + 1
           \<and> consecutive_successes (envelope t') = 0"
proof -
  let ?s1 = "s\<lparr> queue := [], processing := AList.update (task_id t) t (processing s) \<rparr>"
  have tk: "tick rs s = snd (run_pass rs t ?s1)"
    using q cap by (simp add: tick_unfold)
  from verdict_of_reached[OF v, of ?s1] obtain res t1 s2 w where
    ex: "processTask_execute rs t ?s1 = Inr (res, t1, s2)" and
    vr: "verifyResult rs t1 res = Inr w" and st: "get_prop w ''status'' = Some (JStr ''RETRY'')"
    by blast
  let ?s3 = "call VerifyResult t1 s2"
  have rp: "run_pass rs t ?s1 = retry_branch t1 ?s3"
    using ex vr st by (simp add: run_pass_def processTask_def processTask_verdict_def
                            split: prod.splits)
  from execute_advance(2)[OF ex] have
    a: "task_id t1 = task_id t" "ttl_max (envelope t1) = ttl_max (envelope t)"
       "hops (envelope t1) = hops (envelope t) + 1" "maxConcurrent s2 = maxConcurrent s"
       "queue s2 = []" "processing s2 = [(task_id t, t)]" "done_list s2 = done_list s"
    using pr by (simp_all add: advance_def same_identity_def)
  note c = execute_counters(2)[OF ex]
  have below: "\<not> ttl_max (envelope t1) \<le> hops (envelope t1)"
    using a h by simp
  let ?t' = "fst (retry_branch t1 ?s3)"
  have s': "tick rs s = ?s3\<lparr> trace := trace ?s3 @ [Save ?t'],
                              processing := AList.delete (task_id t1) (processing ?s3),
                              queue := queue ?s3 @ [?t'] \<rparr>"
    unfolding tk rp using below by (simp add: retry_branch_sched)
  have cap': "\<not> at_capacity (tick rs s)"
    using cap pr a unfolding s' by (simp add: at_capacity_def call_def split: option.splits)
  have env: "hops (envelope ?t') = hops (envelope t) + 1
             \<and> ttl_max (envelope ?t') = ttl_max (envelope t)
             \<and> consecutive_failures (envelope ?t') = consecutive_failures (envelope t) + 1
             \<and> consecutive_successes (envelope ?t') = 0"
    using a c by (simp add: retry_branch_envelope)
  show ?thesis
    by (rule exI[of _ ?t']) (use s' cap' env a in \<open>simp add: call_def\<close>)
qed

lemma pass_tick:
  assumes q: "queue s = [t]" and pr: "processing s = []" and cap: "\<not> at_capacity s"
      and v: "verdict_of rs t s = Some (JStr ''PASS'')"
  shows "\<exists>t'. queue (tick rs s) = [] \<and> processing (tick rs s) = []
           \<and> done_list (tick rs s) = done_list s @ [t']
           \<and> status t' = Completed
           \<and> hops (envelope t') = hops (envelope t) + 1
           \<and> consecutive_failures (envelope t') = 0
           \<and> consecutive_successes (envelope t') = consecutive_successes (envelope t) + 1"
proof -
  let ?s1 = "s\<lparr> queue := [], processing := AList.update (task_id t) t (processing s) \<rparr>"
  have tk: "tick rs s = snd (run_pass rs t ?s1)"
    using q cap by (simp add: tick_unfold)
  from verdict_of_reached[OF v, of ?s1] obtain res t1 s2 w where
    ex: "processTask_execute rs t ?s1 = Inr (res, t1, s2)" and
    vr: "verifyResult rs t1 res = Inr w" and st: "get_prop w ''status'' = Some (JStr ''PASS'')"
    by blast
  let ?s3 = "call VerifyResult t1 s2"
  have rp: "run_pass rs t ?s1 = pass_branch w res t1 ?s3"
    using ex vr st by (simp add: run_pass_def processTask_def processTask_verdict_def
                            split: prod.splits)
  from execute_advance(2)[OF ex] have
    a: "task_id t1 = task_id t" "hops (envelope t1) = hops (envelope t) + 1"
       "queue s2 = []" "processing s2 = [(task_id t, t)]" "done_list s2 = done_list s"
    using pr by (simp_all add: advance_def same_identity_def)
  note c = execute_counters(2)[OF ex]
  let ?t' = "fst (pass_branch w res t1 ?s3)"
  have s': "tick rs s = ?s3\<lparr> trace := trace ?s3 @ [Save ?t'],
                              processing := AList.delete (task_id t1) (processing ?s3),
                              done_list := done_list ?s3 @ [?t'] \<rparr>"
    unfolding tk rp by (simp add: pass_branch_sched)
  have env: "status ?t' = Completed
             \<and> hops (envelope ?t') = hops (envelope t) + 1
             \<and> consecutive_failures (envelope ?t') = 0
             \<and> consecutive_successes (envelope ?t') = consecutive_successes (envelope t) + 1"
    using a c by (simp add: pass_branch_envelope pass_branch_task)
  show ?thesis
    by (rule exI[of _ ?t']) (use s' env a in \<open>simp add: call_def\<close>)
qed

lemma retries:
  "receives (replicate k ''RETRY'' @ vs) rss s \<Longrightarrow> queue s = [t] \<Longrightarrow> processing s = []
   \<Longrightarrow> \<not> at_capacity s \<Longrightarrow> hops (envelope t) + k < ttl_max (envelope t)
   \<Longrightarrow> consecutive_successes (envelope t) = 0
   \<Longrightarrow> \<exists>rss1 rss2 t'. rss = rss1 @ rss2
         \<and> queue (run (map Tick rss1) s) = [t']
         \<and> processing (run (map Tick rss1) s) = []
         \<and> \<not> at_capacity (run (map Tick rss1) s)
         \<and> done_list (run (map Tick rss1) s) = done_list s
         \<and> hops (envelope t') = hops (envelope t) + k
         \<and> consecutive_failures (envelope t') = consecutive_failures (envelope t) + k
         \<and> consecutive_successes (envelope t') = 0
         \<and> receives vs rss2 (run (map Tick rss1) s)"
proof (induction k arbitrary: rss s t)
  case 0
  show ?case
    by (rule exI[of _ "[]"], rule exI[of _ rss], rule exI[of _ t]) (use 0 in simp)
next
  case (Suc k)
  from Suc.prems(1,2) obtain rs rss' where
    rss: "rss = rs # rss'" and
    v: "verdict_of rs t s = Some (JStr ''RETRY'')" and
    rest: "receives (replicate k ''RETRY'' @ vs) rss' (tick rs s)"
    by (cases rss) auto
  have "hops (envelope t) + 1 < ttl_max (envelope t)"
    using Suc.prems(5) by simp
  from retry_tick[OF Suc.prems(2,3,4) v this] obtain t1 where
    1: "queue (tick rs s) = [t1]" "processing (tick rs s) = []" "\<not> at_capacity (tick rs s)"
       "done_list (tick rs s) = done_list s"
       "hops (envelope t1) = hops (envelope t) + 1"
       "ttl_max (envelope t1) = ttl_max (envelope t)"
       "consecutive_failures (envelope t1) = consecutive_failures (envelope t) + 1"
       "consecutive_successes (envelope t1) = 0"
    by blast
  have "hops (envelope t1) + k < ttl_max (envelope t1)"
    using 1 Suc.prems(5) by simp
  from Suc.IH[OF rest 1(1,2,3) this 1(8)] obtain r1 r2 t' where
    2: "rss' = r1 @ r2"
       "queue (run (map Tick r1) (tick rs s)) = [t']"
       "processing (run (map Tick r1) (tick rs s)) = []"
       "\<not> at_capacity (run (map Tick r1) (tick rs s))"
       "done_list (run (map Tick r1) (tick rs s)) = done_list (tick rs s)"
       "hops (envelope t') = hops (envelope t1) + k"
       "consecutive_failures (envelope t') = consecutive_failures (envelope t1) + k"
       "consecutive_successes (envelope t') = 0"
       "receives vs r2 (run (map Tick r1) (tick rs s))"
    by blast
  show ?case
    by (rule exI[of _ "rs # r1"], rule exI[of _ r2], rule exI[of _ t'])
       (use rss 1 2 in simp)
qed

text \<open>Scenario 1 of the specification, for any task as the submission endpoint creates
  it and any positive concurrency cap.\<close>

lemma scenario_nine_retries_then_pass:
  assumes "0 < m"
      and "s0 = enqueue (post_api_tasks taskId now descr sw ty files) (new_TaskQueue (Some m))"
      and "receives (replicate 9 ''RETRY'' @ [''PASS'']) rss s0"
  shows "\<exists>t'. done_list (run (map Tick rss) s0) = [t'] \<and> queue (run (map Tick rss) s0) = []
           \<and> processing (run (map Tick rss) s0) = []
           \<and> status t' = Completed \<and> hops (envelope t') = 10
           \<and> consecutive_failures (envelope t') = 0
           \<and> consecutive_successes (envelope t') = 1"
proof -
  let ?t = "post_api_tasks taskId now descr sw ty files"
  have i: "queue s0 = [?t]" "processing s0 = []" "\<not> at_capacity s0" "done_list s0 = []"
          "hops (envelope ?t) + 9 < ttl_max (envelope ?t)"
          "consecutive_successes (envelope ?t) = 0"
    using assms(1,2)
    by (simp_all add: enqueue_def new_TaskQueue_def at_capacity_def post_api_tasks_def)
  from retries[OF assms(3) i(1,2,3,5,6)] obtain rss1 rss2 t9 where
    9: "rss = rss1 @ rss2"
       "queue (run (map Tick rss1) s0) = [t9]"
       "processing (run (map Tick rss1) s0) = []"
       "\<not> at_capacity (run (map Tick rss1) s0)"
       "done_list (run (map Tick rss1) s0) = done_list s0"
       "hops (envelope t9) = hops (envelope ?t) + 9"
       "consecutive_successes (envelope t9) = 0"
       "receives [''PASS''] rss2 (run (map Tick rss1) s0)"
    by blast
  let ?s9 = "run (map Tick rss1) s0"
  from 9(8) 9(2) obtain rs where
    l: "rss2 = [rs]" and v: "verdict_of rs t9 ?s9 = Some (JStr ''PASS'')"
    by (cases rss2; cases "tl rss2") auto
  have f: "run (map Tick rss) s0 = tick rs ?s9"
    unfolding 9(1) l by (simp add: run_append)
  from pass_tick[OF 9(2,3,4) v] obtain t' where
    "queue (tick rs ?s9) = []" "processing (tick rs ?s9) = []"
    "done_list (tick rs ?s9) = done_list ?s9 @ [t']" "status t' = Completed"
    "hops (envelope t') = hops (envelope t9) + 1"
    "consecutive_failures (envelope t') = 0"
    "consecutive_successes (envelope t') = consecutive_successes (envelope t9) + 1"
    by blast
  then show ?thesis
    unfolding f using 9(5,6,7) i(4) by (simp add: post_api_tasks_def)
qed

text \<open>The concrete answers used below lead every pass to the verdict they carry,
  whatever the task and its mode.\<close>

lemma answers_reach_verdict:
  "verdict_of (answers (Parsed plan_ok) (Parsed (JObj [])) (verdict w)) t s = Some (JStr w)"
proof -
  let ?rs = "answers (Parsed plan_ok) (Parsed (JObj [])) (verdict w)"
  let ?x = "executing plan_ok t"
  have pl: "planExecution ?rs t = Inr plan_ok"
    by (simp add: planExecution_def answers_def plan_ok_def printable_or_def printable_def
                  length_prop_def)
  have ex: "\<not> isl (executeTask ?rs ?x plan_ok)"
    by (simp add: executeTask_def plan_steps_def plan_ok_def spawn_for_step_def
                  spawnClaudeSession_def answers_def field_def printable_def)
  have su: "\<not> isl (superviseTask ?rs ?x plan_ok)"
    by (simp add: superviseTask_def plan_steps_def plan_ok_def spawn_for_step_def
                  spawnClaudeSession_def answers_def field_def printable_def)
  have ar: "architectTask ?rs ?x = Inr (JObj [], ?x)"
    by (simp add: architectTask_def answers_def printable_def)
  let ?s3 = "s\<lparr> trace := trace s @ [Save (classifying t), Call PlanExecution (classifying t),
                                       Save (planned plan_ok t), Save ?x] \<rparr>"
  have "\<exists>res s4. dispatch ?rs plan_ok ?x ?s3 = Inr (res, ?x, s4)"
    using ex su ar by (auto simp: dispatch_def split: sum.splits)
  then obtain res s4 where d: "dispatch ?rs plan_ok ?x ?s3 = Inr (res, ?x, s4)"
    by blast
  have e: "processTask_execute ?rs t s
             = Inr (res, ?x\<lparr> status := Verifying \<rparr>, saveTask (?x\<lparr> status := Verifying \<rparr>) s4)"
    unfolding execute_planned[OF pl] d by simp
  have "plan (?x\<lparr> status := Verifying \<rparr>) = Some plan_ok"
    by (simp add: executing_def planned_def classifying_def inc_hops_def)
  then have "verifyResult ?rs (?x\<lparr> status := Verifying \<rparr>) res = Inr (verdict_json w)"
    by (simp add: verifyResult_def expected_outcome_def plan_ok_def printable_or_def
                  printable_def verdict_def verdict_json_def answers_def)
  with e show ?thesis
    by (simp add: verdict_of_def verdict_json_def)
qed

lemma receives_retries:
  assumes "\<And>t s. verdict_of rs t s = Some (JStr ''RETRY'')"
      and "\<And>t' s'. queue s' = [t'] \<Longrightarrow> processing s' = [] \<Longrightarrow> \<not> at_capacity s'
             \<Longrightarrow> receives vs rss s'"
  shows "queue s = [t] \<Longrightarrow> processing s = [] \<Longrightarrow> \<not> at_capacity s
         \<Longrightarrow> hops (envelope t) + k < ttl_max (envelope t)
         \<Longrightarrow> receives (replicate k ''RETRY'' @ vs) (replicate k rs @ rss) s"
proof (induction k arbitrary: s t)
  case 0
  then show ?case
    using assms(2) by simp
next
  case (Suc k)
  have "hops (envelope t) + 1 < ttl_max (envelope t)"
    using Suc.prems(4) by simp
  from retry_tick[OF Suc.prems(1,2,3) assms(1) this] obtain t1 where
    1: "queue (tick rs s) = [t1]" "processing (tick rs s) = []" "\<not> at_capacity (tick rs s)"
       "hops (envelope t1) = hops (envelope t) + 1"
       "ttl_max (envelope t1) = ttl_max (envelope t)"
    by blast
  have "hops (envelope t1) + k < ttl_max (envelope t1)"
    using 1 Suc.prems(4) by simp
  from Suc.IH[OF 1(1,2,3) this] show ?case
    using Suc.prems(1) assms(1) by simp
qed

text \<open>
  Claim C7. On a PASS verdict the task gets the status \<^verbatim>\<open>completed\<close> with the result
  and the verdict recorded, its success counter is incremented and its failure counter
  set to zero; if the success counter is then at least 2 and the task is escalated, the
  mode becomes EXECUTE and the flag is cleared, and otherwise both stay. The task is
  pushed on the list of done tasks, deleted from the map of tasks being processed and not
  pushed on the queue, and unless another copy of it was still pending or in flight, no
  later history that does not submit its id again brings it back among the tasks that are
  pending, being processed or in flight. A task as created by the submission endpoint that
  obtains nine RETRY verdicts and then a PASS ends completed on its tenth hop, with no
  failure and one success on the counters.
\<close>

theorem pass_completes_task:
  "(get_prop v ''status'' = Some (JStr ''PASS'') \<longrightarrow>
      status (fst (processTask_verdict v res t s)) = Completed
      \<and> result (fst (processTask_verdict v res t s)) = Some res
      \<and> verification (fst (processTask_verdict v res t s)) = Some v
      \<and> consecutive_successes (envelope (fst (processTask_verdict v res t s)))
           = consecutive_successes (envelope t) + 1
      \<and> consecutive_failures (envelope (fst (processTask_verdict v res t s))) = 0
      \<and> (if 2 \<le> consecutive_successes (envelope t) + 1 \<and> escalated (envelope t)
          then mode (envelope (fst (processTask_verdict v res t s))) = ''EXECUTE''
               \<and> \<not> escalated (envelope (fst (processTask_verdict v res t s)))
          else mode (envelope (fst (processTask_verdict v res t s))) = mode (envelope t)
               \<and> escalated (envelope (fst (processTask_verdict v res t s)))
                    = escalated (envelope t))
      \<and> done_list (snd (processTask_verdict v res t s))
           = done_list s @ [fst (processTask_verdict v res t s)]
      \<and> queue (snd (processTask_verdict v res t s)) = queue s
      \<and> task_id t \<notin> processing_ids (snd (processTask_verdict v res t s))
      \<and> (task_id t \<notin> pending_ids s \<longrightarrow> task_id t \<notin> in_flight_ids s
           \<longrightarrow> task_id t \<notin> enqueued evs
           \<longrightarrow> task_id t \<notin> managed (run evs (snd (processTask_verdict v res t s)))))
   \<and>
   (0 < m \<and> receives (replicate 9 ''RETRY'' @ [''PASS'']) rss
               (enqueue (post_api_tasks taskId now descr sw ty files) (new_TaskQueue (Some m)))
    \<longrightarrow> (\<exists>t'. done_list (run (map Tick rss)
                   (enqueue (post_api_tasks taskId now descr sw ty files)
                            (new_TaskQueue (Some m)))) = [t']
            \<and> queue (run (map Tick rss)
                   (enqueue (post_api_tasks taskId now descr sw ty files)
                            (new_TaskQueue (Some m)))) = []
            \<and> status t' = Completed
            \<and> consecutive_failures (envelope t') = 0
            \<and> consecutive_successes (envelope t') = 1))"
proof -
  have 1: "status (fst (processTask_verdict v res t s)) = Completed
      \<and> result (fst (processTask_verdict v res t s)) = Some res
      \<and> verification (fst (processTask_verdict v res t s)) = Some v
      \<and> consecutive_successes (envelope (fst (processTask_verdict v res t s)))
           = consecutive_successes (envelope t) + 1
      \<and> consecutive_failures (envelope (fst (processTask_verdict v res t s))) = 0
      \<and> (if 2 \<le> consecutive_successes (envelope t) + 1 \<and> escalated (envelope t)
          then mode (envelope (fst (processTask_verdict v res t s))) = ''EXECUTE''
               \<and> \<not> escalated (envelope (fst (processTask_verdict v res t s)))
          else mode (envelope (fst (processTask_verdict v res t s))) = mode (envelope t)
               \<and> escalated (envelope (fst (processTask_verdict v res t s)))
                    = escalated (envelope t))
      \<and> done_list (snd (processTask_verdict v res t s))
           = done_list s @ [fst (processTask_verdict v res t s)]
      \<and> queue (snd (processTask_verdict v res t s)) = queue s
      \<and> task_id t \<notin> processing_ids (snd (processTask_verdict v res t s))
      \<and> (task_id t \<notin> pending_ids s \<longrightarrow> task_id t \<notin> in_flight_ids s
           \<longrightarrow> task_id t \<notin> enqueued evs
           \<longrightarrow> task_id t \<notin> managed (run evs (snd (processTask_verdict v res t s))))"
    if p: "get_prop v ''status'' = Some (JStr ''PASS'')"
  proof -
    have e: "processTask_verdict v res t s = pass_branch v res t s"
      using p by (simp add: processTask_verdict_def)
    have rv: "result (fst (pass_branch v res t s)) = Some res"
             "verification (fst (pass_branch v res t s)) = Some v"
      by (simp_all add: pass_branch_def Let_def)
    have out: "task_id t \<notin> processing_ids (snd (pass_branch v res t s))"
      by (simp add: pass_branch_sched processing_ids_def delete_keys_set)
    have q: "queue (snd (pass_branch v res t s)) = queue s"
      by (simp add: pass_branch_sched)
    have fl: "in_flight (snd (pass_branch v res t s)) = in_flight s"
      by (simp add: pass_branch_sched)
    have "task_id t \<notin> managed (run evs (snd (pass_branch v res t s)))"
      if "task_id t \<notin> pending_ids s" "task_id t \<notin> in_flight_ids s"
         "task_id t \<notin> enqueued evs"
    proof -
      have "task_id t \<notin> managed (snd (pass_branch v res t s))"
        using that(1,2) out q fl by (simp add: managed_def pending_ids_def in_flight_ids_def)
      then show ?thesis
        using that(3) by (rule gone_for_good)
    qed
    then show ?thesis
      unfolding e using rv out q
      by (simp add: pass_branch_envelope pass_branch_task pass_branch_sched)
  qed
  have 2: "\<exists>t'. done_list (run (map Tick rss)
                   (enqueue (post_api_tasks taskId now descr sw ty files)
                            (new_TaskQueue (Some m)))) = [t']
            \<and> queue (run (map Tick rss)
                   (enqueue (post_api_tasks taskId now descr sw ty files)
                            (new_TaskQueue (Some m)))) = []
            \<and> status t' = Completed
            \<and> consecutive_failures (envelope t') = 0
            \<and> consecutive_successes (envelope t') = 1"
    if "0 < m" "receives (replicate 9 ''RETRY'' @ [''PASS'']) rss
               (enqueue (post_api_tasks taskId now descr sw ty files) (new_TaskQueue (Some m)))"
    using scenario_nine_retries_then_pass[OF that(1) refl that(2)] by blast
  from 1 2 show ?thesis
    by blast
qed

theorem pass_completes_task_witness:
  "get_prop (verdict_json ''PASS'') ''status'' = Some (JStr ''PASS'') \<and>
   task_id task_recovering \<notin> pending_ids queue0 \<and>
   task_id task_recovering \<notin> in_flight_ids queue0 \<and>
   task_id task_recovering \<notin> enqueued [Enqueue task1, Admit, Finish 0 rs_retry] \<and>
   2 \<le> consecutive_successes (envelope task_recovering) + 1 \<and>
   escalated (envelope task_recovering) \<and>
   receives (replicate 9 ''RETRY'' @ [''PASS'']) (replicate 9 rs_retry @ [rs_pass])
     (enqueue task0 (new_TaskQueue (Some 3))) \<and>
   status (fst (processTask_verdict (verdict_json ''PASS'') JNull task_recovering queue0))
     = Completed \<and>
   mode (envelope (fst (processTask_verdict (verdict_json ''PASS'') JNull task_recovering queue0)))
     = ''EXECUTE'' \<and>
   task_id task_recovering
     \<notin> managed (run [Enqueue task1, Admit, Finish 0 rs_retry]
                  (snd (processTask_verdict (verdict_json ''PASS'') JNull task_recovering queue0))) \<and>
   (\<exists>t'. done_list (run (map Tick (replicate 9 rs_retry @ [rs_pass]))
                    (enqueue task0 (new_TaskQueue (Some 3)))) = [t']
        \<and> status t' = Completed
        \<and> consecutive_failures (envelope t') = 0
        \<and> consecutive_successes (envelope t') = 1)"
proof -
  have h: "get_prop (verdict_json ''PASS'') ''status'' = Some (JStr ''PASS'')"
          "task_id task_recovering \<notin> pending_ids queue0"
          "task_id task_recovering \<notin> in_flight_ids queue0"
          "task_id task_recovering \<notin> enqueued [Enqueue task1, Admit, Finish 0 rs_retry]"
          "2 \<le> consecutive_successes (envelope task_recovering) + 1"
          "escalated (envelope task_recovering)"
    by code_simp+
  let ?t = "post_api_tasks ''LEGACY-1700000000000-1a2b3c4d''
              ''2023-11-14T22:13:20.000Z'' ''Enter the March invoices'' None None []"
  have i: "queue (enqueue ?t (new_TaskQueue (Some 3))) = [?t]"
          "processing (enqueue ?t (new_TaskQueue (Some 3))) = []"
          "\<not> at_capacity (enqueue ?t (new_TaskQueue (Some 3)))"
          "hops (envelope ?t) + 9 < ttl_max (envelope ?t)"
    by (simp_all add: enqueue_def new_TaskQueue_def at_capacity_def post_api_tasks_def)
  have l: "receives [''PASS''] [rs_pass] s'" if "queue s' = [t']" for s' t'
    using that answers_reach_verdict[of "''PASS''" t' s'] by (simp add: rs_pass_def)
  have r: "receives (replicate 9 ''RETRY'' @ [''PASS'']) (replicate 9 rs_retry @ [rs_pass])
             (enqueue ?t (new_TaskQueue (Some 3)))"
    by (rule receives_retries[OF _ l i])
       (simp_all add: rs_retry_def answers_reach_verdict)
  have m: "(0::int) < 3"
    by simp
  from pass_completes_task[of "verdict_json ''PASS''" JNull task_recovering queue0
         "[Enqueue task1, Admit, Finish 0 rs_retry]" 3 "replicate 9 rs_retry @ [rs_pass]"
         "''LEGACY-1700000000000-1a2b3c4d''" "''2023-11-14T22:13:20.000Z''"
         "''Enter the March invoices''" None None "[]"]
       h r m
  show ?thesis
    unfolding task0_def by (simp, blast)
qed

section \<open>What holds along every history\<close>

lemma same_identity_trans:
  "same_identity t x \<Longrightarrow> same_identity x y \<Longrightarrow> same_identity t y"
  by (simp add: same_identity_def)

lemma processTask_identity: "same_identity t (fst (snd (processTask rs t s)))"
proof (cases "processTask_execute rs t s")
  case (Inl a)
  then obtain err t1 s1 where a: "processTask_execute rs t s = Inl (err, t1, s1)"
    by (cases a) auto
  from execute_advance(1)[OF a] a show ?thesis
    by (simp add: processTask_def advance_def)
next
  case (Inr b)
  then obtain res t1 s1 where b: "processTask_execute rs t s = Inr (res, t1, s1)"
    by (cases b) auto
  from execute_advance(2)[OF b] have 1: "same_identity t t1"
    by (simp add: advance_def)
  show ?thesis
  proof (cases "verifyResult rs t1 res")
    case (Inl err)
    with b 1 show ?thesis
      by (simp add: processTask_def)
  next
    case (Inr v)
    obtain t2 s2 where v: "processTask_verdict v res t1 (call VerifyResult t1 s1) = (t2, s2)"
      by (cases "processTask_verdict v res t1 (call VerifyResult t1 s1)") auto
    from verdict_advance[OF v] have "same_identity t1 t2"
      by (simp add: advance_def)
    with 1 b Inr v show ?thesis
      by (simp add: processTask_def same_identity_trans)
  qed
qed

lemma set_delete_subset: "set (AList.delete k al) \<subseteq> set al"
  by (auto simp: AList.delete_eq)

lemma set_update_subset: "set (AList.update k v al) \<subseteq> insert (k, v) (set al)"
  by (induction al) auto

text \<open>A pass adds to the tasks the scheduler knows only states of its own task.\<close>

lemma pass_known:
  assumes "run_pass rs h s1 = (t', s')"
  shows "\<forall>x \<in> known s'. x \<in> known s1 \<or> same_identity h x"
proof -
  from run_pass_advance[OF assms] have
    a: "advance h s1 t' s'" and
    p: "processing s' = AList.delete (task_id h) (processing s1)" and
    st: "settled s1 t' s'"
    by simp_all
  from a have tr: "trace s' = trace s1 @ emitted s1 s'"
    unfolding advance_def trace_extended by blast
  have em: "\<forall>e \<in> set (emitted s1 s'). same_identity h (snapshot e)"
    using a by (simp add: advance_def)
  have t': "same_identity h t'" and fl: "in_flight s' = in_flight s1"
    using a by (simp_all add: advance_def)
  have qs: "set (queue s') \<subseteq> set (queue s1) \<union> {t'}"
           "set (done_list s') \<subseteq> set (done_list s1) \<union> {t'}"
    using st by (auto simp: settled_def)
  have ps: "set (processing s') \<subseteq> set (processing s1)"
    unfolding p by (rule set_delete_subset)
  show ?thesis
    using qs ps em t' fl unfolding known_def tr by auto
qed

lemma admit_known: "known (admit s) \<subseteq> known s"
proof -
  { fix t rest
    assume q: "queue s = t # rest"
    have "snd ` set (AList.update (task_id t) t (processing s))
            \<subseteq> insert t (snd ` set (processing s))"
      using set_update_subset[of "task_id t" t "processing s"] by auto
    with q have "known (s\<lparr> queue := rest,
                            processing := AList.update (task_id t) t (processing s),
                            in_flight := in_flight s @ [t] \<rparr>) \<subseteq> known s"
      by (auto simp: known_def) }
  then show ?thesis
    using admit_cases[of s] by auto
qed

lemma finish_known:
  "\<forall>x \<in> known (finish i rs s). x \<in> known s \<or> (\<exists>h \<in> known s. same_identity h x)"
proof -
  { assume i: "i < length (in_flight s)"
    let ?h = "in_flight s ! i"
    let ?s1 = "s\<lparr> in_flight := take i (in_flight s) @ drop (Suc i) (in_flight s) \<rparr>"
    obtain t' s' where r: "run_pass rs ?h ?s1 = (t', s')"
      by (cases "run_pass rs ?h ?s1") auto
    have h: "?h \<in> known s"
      using i by (simp add: known_def)
    have k: "known ?s1 \<subseteq> known s"
      using set_without_nth[of i "in_flight s"] by (auto simp: known_def)
    have "\<forall>x \<in> known s'. x \<in> known s \<or> (\<exists>h \<in> known s. same_identity h x)"
      using pass_known[OF r] h k by blast
    with r have "\<forall>x \<in> known (snd (run_pass rs ?h ?s1)).
                  x \<in> known s \<or> (\<exists>h \<in> known s. same_identity h x)"
      by simp }
  note pass = this
  from finish_cases[of i rs s] show ?thesis
  proof
    assume "finish i rs s = s"
    then show ?thesis by simp
  next
    assume "i < length (in_flight s) \<and>
            finish i rs s
              = snd (run_pass rs (in_flight s ! i)
                       (s\<lparr> in_flight := take i (in_flight s) @ drop (Suc i) (in_flight s) \<rparr>))"
    with pass show ?thesis
      by simp
  qed
qed

lemma step_known:
  assumes closed: "\<And>t x. same_identity t x \<Longrightarrow> P t \<Longrightarrow> P x"
      and "\<forall>x \<in> known s. P x" and "\<forall>u \<in> set (submitted [e]). P u"
  shows "\<forall>x \<in> known (step e s). P x"
proof -
  have fin: "\<forall>x \<in> known (finish i rs s0). P x" if "\<forall>x \<in> known s0. P x" for i rs s0
    using finish_known[of i rs s0] that closed by blast
  have adm: "\<forall>x \<in> known (admit s). P x"
    using admit_known[of s] assms(2) by blast
  show ?thesis
  proof (cases e)
    case (Enqueue u)
    have "known (enqueue u s) = insert u (known s)"
      by (auto simp: known_def enqueue_def)
    with assms(2,3) Enqueue show ?thesis
      by simp
  next
    case Admit
    with adm show ?thesis
      by simp
  next
    case (Finish i rs)
    with fin[OF assms(2)] show ?thesis
      by simp
  next
    case (Tick rs)
    with tick_steps[of rs s] fin[OF adm] assms(2) show ?thesis
      by auto
  qed
qed

lemma run_known:
  assumes closed: "\<And>t x. same_identity t x \<Longrightarrow> P t \<Longrightarrow> P x"
  shows "\<forall>x \<in> known s. P x \<Longrightarrow> \<forall>u \<in> set (submitted evs). P u
         \<Longrightarrow> \<forall>x \<in> known (run evs s). P x"
proof (induction evs arbitrary: s)
  case Nil
  then show ?case by simp
next
  case (Cons e evs)
  have sub: "set (submitted (e # evs)) = set (submitted [e]) \<union> set (submitted evs)"
    by (cases e) simp_all
  have "\<forall>x \<in> known (step e s). P x"
    using step_known[of P s e] closed Cons.prems sub by blast
  with Cons.IH[of "step e s"] Cons.prems(2) sub show ?case
    by simp
qed

text \<open>
  Claim C10. The submission endpoint creates a task with empty \<^verbatim>\<open>state_hashes\<close> and
  \<^verbatim>\<open>session_ids\<close>. Neither \<^verbatim>\<open>processTask\<close>, whether it returns or throws, nor the
  handling of a verdict, nor \<^verbatim>\<open>handleFailure\<close> changes either list, and every state of
  the task that a pass saves or passes to a collaborator carries them unchanged. Hence in
  every history whose submitted tasks have both lists empty, every task that the
  scheduler holds, pending, being processed, in flight or done, and every state it has
  written or passed on, has both lists empty.
\<close>

theorem audit_lists_never_written:
  "state_hashes (envelope (post_api_tasks taskId now descr sw ty files)) = [] \<and>
   session_ids (envelope (post_api_tasks taskId now descr sw ty files)) = [] \<and>
   state_hashes (envelope (fst (snd (processTask rs t s)))) = state_hashes (envelope t) \<and>
   session_ids (envelope (fst (snd (processTask rs t s)))) = session_ids (envelope t) \<and>
   state_hashes (envelope (fst (processTask_verdict v res t s))) = state_hashes (envelope t) \<and>
   session_ids (envelope (fst (processTask_verdict v res t s))) = session_ids (envelope t) \<and>
   state_hashes (envelope (fst (handleFailure msg t s))) = state_hashes (envelope t) \<and>
   session_ids (envelope (fst (handleFailure msg t s))) = session_ids (envelope t) \<and>
   state_hashes (envelope (fst (run_pass rs t s))) = state_hashes (envelope t) \<and>
   session_ids (envelope (fst (run_pass rs t s))) = session_ids (envelope t) \<and>
   (\<forall>e \<in> set (emitted s (snd (run_pass rs t s))).
      state_hashes (envelope (snapshot e)) = state_hashes (envelope t)
      \<and> session_ids (envelope (snapshot e)) = session_ids (envelope t)) \<and>
   ((\<forall>u \<in> set (submitted evs).
       state_hashes (envelope u) = [] \<and> session_ids (envelope u) = [])
    \<longrightarrow> (\<forall>x \<in> known (run evs (new_TaskQueue cap)).
           state_hashes (envelope x) = [] \<and> session_ids (envelope x) = []))"
proof -
  have 1: "state_hashes (envelope (post_api_tasks taskId now descr sw ty files)) = []
           \<and> session_ids (envelope (post_api_tasks taskId now descr sw ty files)) = []"
    by (simp add: post_api_tasks_def)
  have 2: "state_hashes (envelope (fst (snd (processTask rs t s)))) = state_hashes (envelope t)
           \<and> session_ids (envelope (fst (snd (processTask rs t s)))) = session_ids (envelope t)"
    using processTask_identity[of t rs s] by (simp add: same_identity_def)
  obtain t3 s3 where v: "processTask_verdict v res t s = (t3, s3)"
    by (cases "processTask_verdict v res t s") auto
  have 3: "state_hashes (envelope (fst (processTask_verdict v res t s)))
             = state_hashes (envelope t)
           \<and> session_ids (envelope (fst (processTask_verdict v res t s)))
             = session_ids (envelope t)"
    using verdict_advance[OF v] v by (simp add: advance_def same_identity_def)
  have 4: "state_hashes (envelope (fst (handleFailure msg t s))) = state_hashes (envelope t)
           \<and> session_ids (envelope (fst (handleFailure msg t s))) = session_ids (envelope t)"
    using handleFailure_task(1)[of t msg s] by (simp add: same_identity_def)
  obtain t5 s5 where r: "run_pass rs t s = (t5, s5)"
    by (cases "run_pass rs t s") auto
  from run_pass_advance[OF r] have a: "advance t s t5 s5"
    by simp
  have 5: "state_hashes (envelope (fst (run_pass rs t s))) = state_hashes (envelope t)
           \<and> session_ids (envelope (fst (run_pass rs t s))) = session_ids (envelope t)"
    using a r by (simp add: advance_def same_identity_def)
  have 6: "\<forall>e \<in> set (emitted s (snd (run_pass rs t s))).
             state_hashes (envelope (snapshot e)) = state_hashes (envelope t)
             \<and> session_ids (envelope (snapshot e)) = session_ids (envelope t)"
    using a r by (simp add: advance_def same_identity_def)
  have 7: "\<forall>x \<in> known (run evs (new_TaskQueue cap)).
             state_hashes (envelope x) = [] \<and> session_ids (envelope x) = []"
    if "\<forall>u \<in> set (submitted evs).
          state_hashes (envelope u) = [] \<and> session_ids (envelope u) = []"
  proof (rule run_known[where P = "\<lambda>x. state_hashes (envelope x) = []
                                        \<and> session_ids (envelope x) = []"])
    show "\<forall>x \<in> known (new_TaskQueue cap).
            state_hashes (envelope x) = [] \<and> session_ids (envelope x) = []"
      by (simp add: known_def new_TaskQueue_def)
  qed (use that in \<open>simp_all add: same_identity_def\<close>)
  from 1 2 3 4 5 6 7 show ?thesis
    by blast
qed

theorem audit_lists_never_written_witness:
  "map (\<lambda>u. (state_hashes (envelope u), session_ids (envelope u)))
     (submitted [Enqueue task0, Enqueue task1, Admit, Finish 0 rs_pass]) = [([], []), ([], [])] \<and>
   length (done_list (run [Enqueue task0, Enqueue task1, Admit, Finish 0 rs_pass] (new_TaskQueue (Some 3))))
     = 1 \<and>
   state_hashes (envelope (hd (done_list
      (run [Enqueue task0, Enqueue task1, Admit, Finish 0 rs_pass] (new_TaskQueue (Some 3)))))) = [] \<and>
   session_ids (envelope (hd (done_list
      (run [Enqueue task0, Enqueue task1, Admit, Finish 0 rs_pass] (new_TaskQueue (Some 3)))))) = []"
proof -
  let ?evs = "[Enqueue task0, Enqueue task1, Admit, Finish 0 rs_pass]"
  have m: "map (\<lambda>u. (state_hashes (envelope u), session_ids (envelope u))) (submitted ?evs)
             = [([], []), ([], [])]"
    by code_simp
  then have h: "\<forall>u \<in> set (submitted ?evs).
                  state_hashes (envelope u) = [] \<and> session_ids (envelope u) = []"
    by simp
  have n: "length (done_list (run ?evs (new_TaskQueue (Some 3)))) = 1"
    by code_simp
  then have "hd (done_list (run ?evs (new_TaskQueue (Some 3))))
               \<in> set (done_list (run ?evs (new_TaskQueue (Some 3))))"
    by (cases "done_list (run ?evs (new_TaskQueue (Some 3)))") simp_all
  then have k: "hd (done_list (run ?evs (new_TaskQueue (Some 3))))
                  \<in> known (run ?evs (new_TaskQueue (Some 3)))"
    by (simp add: known_def)
  from audit_lists_never_written[of _ _ _ _ _ _ _ _ _ _ _ _ ?evs "Some 3"] h k
  have "state_hashes (envelope (hd (done_list (run ?evs (new_TaskQueue (Some 3)))))) = []
        \<and> session_ids (envelope (hd (done_list (run ?evs (new_TaskQueue (Some 3)))))) = []"
    by blast
  with m n show ?thesis
    by blast
qed

section \<open>The hop count along the life of a task\<close>

lemma hops_of_comp: "hops \<circ> envelope \<circ> snapshot = hops_of"
  by (rule ext) (simp add: hops_of_def)

lemma history_append:
  "trace s' = trace s @ evs \<Longrightarrow>
     history tid s' = history tid s @ filter (\<lambda>x. task_id x = tid) (map snapshot evs)"
  by (simp add: history_def)

text \<open>A pass adds to the history of its own task only.\<close>

lemma history_run_pass:
  assumes "run_pass rs h s1 = (t', s')"
  shows "history tid s'
           = history tid s1 @ (if task_id h = tid then map snapshot (emitted s1 s') else [])"
proof -
  from run_pass_advance[OF assms] have a: "advance h s1 t' s'"
    by simp
  then have tr: "trace s' = trace s1 @ emitted s1 s'"
    unfolding advance_def trace_extended by blast
  have ids: "\<forall>x \<in> set (map snapshot (emitted s1 s')). task_id x = task_id h"
    using a by (simp add: advance_def same_identity_def)
  have "filter (\<lambda>x. task_id x = tid) (map snapshot (emitted s1 s'))
          = (if task_id h = tid then map snapshot (emitted s1 s') else [])"
    using ids by (auto simp: filter_empty_conv filter_id_conv)
  with history_append[OF tr, of tid] show ?thesis
    by simp
qed

lemma history_same_trace: "trace s' = trace s \<Longrightarrow> history tid s' = history tid s"
  by (simp add: history_def)

text \<open>The end of the pass of a live task \<open>h\<close>: \<open>s0\<close> is the scheduler with \<open>h\<close>
  among its live tasks, \<open>s1\<close> the scheduler that the pass runs in.\<close>

lemma pass_tracked:
  assumes r: "run_pass rs h s1 = (t', s')"
      and inv: "tracked tid h0 s0"
      and tr0: "trace s1 = trace s0"
      and lv: "live s0 = add_mset h (live s1)"
  shows "tracked tid h0 s'"
proof -
  from run_pass_advance[OF r] have
    a: "advance h s1 t' s'" and
    up: "hops (envelope t') \<le> hops (envelope h) + 1" and
    st: "settled s1 t' s'"
    by simp_all
  from a have
    idt: "task_id t' = task_id h" and
    lo: "hops (envelope h) \<le> hops (envelope t')" and
    fl: "in_flight s' = in_flight s1" and
    em: "\<forall>e \<in> set (emitted s1 s').
           ttl_max (envelope (snapshot e)) = ttl_max (envelope h)
           \<and> hops (envelope h) \<le> hops_of e \<and> hops_of e \<le> hops (envelope t')" and
    so: "sorted (map hops_of (emitted s1 s'))"
    by (simp_all add: advance_def same_identity_def)
  have hist: "history tid s'
                = history tid s0 @ (if task_id h = tid then map snapshot (emitted s1 s') else [])"
    using history_run_pass[OF r, of tid] history_same_trace[OF tr0, of tid] by simp
  have qs: "queue s' = queue s1
            \<or> (queue s' = queue s1 @ [t'] \<and> hops (envelope t') < ttl_max (envelope t'))"
    using st by (auto simp: settled_def)
  then have lv': "live s' = live s1
                  \<or> (live s' = add_mset t' (live s1)
                      \<and> hops (envelope t') < ttl_max (envelope t'))"
    using fl by (auto simp: live_def)
  show ?thesis
  proof (cases "task_id h = tid")
    case False
    have f: "filter_mset (\<lambda>u. task_id u = tid) (live s')
               = filter_mset (\<lambda>u. task_id u = tid) (live s0)"
      using lv' lv False idt by auto
    have "\<forall>u \<in># live s'. task_id u = tid \<longrightarrow> u \<in># live s0"
      using lv' lv False idt by auto
    with inv f hist False show ?thesis
      unfolding tracked_def by auto
  next
    case True
    from inv lv True have
      none: "\<forall>u \<in># live s1. task_id u \<noteq> tid" and
      hh: "h0 \<le> hops (envelope h)" "hops (envelope h) < ttl_max (envelope h)"
          "\<forall>x \<in> set (history tid s0). hops (envelope x) \<le> hops (envelope h)" and
      old: "sorted (map (hops \<circ> envelope) (history tid s0))"
           "\<forall>x \<in> set (history tid s0).
              h0 \<le> hops (envelope x) \<and> hops (envelope x) \<le> ttl_max (envelope x)"
      unfolding tracked_def by auto
    have hist': "history tid s' = history tid s0 @ map snapshot (emitted s1 s')"
      using hist True by simp
    have new: "\<forall>x \<in> set (map snapshot (emitted s1 s')).
                 hops (envelope h) \<le> hops (envelope x)
                 \<and> hops (envelope x) \<le> hops (envelope t')
                 \<and> ttl_max (envelope x) = ttl_max (envelope h)"
      using em by (auto simp: hops_of_def)
    have so': "sorted (map (hops \<circ> envelope) (map snapshot (emitted s1 s')))"
      using so by (simp add: hops_of_comp)
    have 2: "sorted (map (hops \<circ> envelope) (history tid s'))"
      unfolding hist' using old(1) so' hh(3) new
      by (fastforce simp: sorted_append)
    have 3: "\<forall>x \<in> set (history tid s').
               h0 \<le> hops (envelope x) \<and> hops (envelope x) \<le> ttl_max (envelope x)"
      unfolding hist' using old(2) new hh up by fastforce
    have "filter_mset (\<lambda>u. task_id u = tid) (live s1) = {#}"
      using none by simp
    then have 4: "size (filter_mset (\<lambda>u. task_id u = tid) (live s')) \<le> 1"
      using lv' by (auto simp del: filter_mset_eq_mempty_iff)
    have 5: "\<forall>u \<in># live s'. task_id u = tid \<longrightarrow>
               h0 \<le> hops (envelope u) \<and> hops (envelope u) < ttl_max (envelope u) \<and>
               (\<forall>x \<in> set (history tid s'). hops (envelope x) \<le> hops (envelope u))"
    proof (intro ballI impI)
      fix u
      assume u: "u \<in># live s'" "task_id u = tid"
      have "u \<notin># live s1"
        using none u(2) by auto
      with lv' u(1) have ut: "u = t'" and below: "hops (envelope t') < ttl_max (envelope t')"
        by auto
      have "\<forall>x \<in> set (history tid s'). hops (envelope x) \<le> hops (envelope t')"
        unfolding hist' using hh(3) lo new by fastforce
      with ut below hh(1) lo
      show "h0 \<le> hops (envelope u) \<and> hops (envelope u) < ttl_max (envelope u) \<and>
            (\<forall>x \<in> set (history tid s'). hops (envelope x) \<le> hops (envelope u))"
        by simp
    qed
    from 2 3 4 5 show ?thesis
      unfolding tracked_def by blast
  qed
qed

lemma admit_live: "live (admit s) = live s"
  using admit_cases[of s] by (auto simp: live_def)

lemma admit_trace: "trace (admit s) = trace s"
  using admit_cases[of s] by auto

lemma admit_tracked: "tracked tid h0 s \<Longrightarrow> tracked tid h0 (admit s)"
  using admit_live[of s] history_same_trace[OF admit_trace, of tid s]
  by (simp add: tracked_def)

lemma finish_tracked:
  assumes "tracked tid h0 s"
  shows "tracked tid h0 (finish i rs s)"
proof -
  { assume i: "i < length (in_flight s)"
    let ?h = "in_flight s ! i"
    let ?s1 = "s\<lparr> in_flight := take i (in_flight s) @ drop (Suc i) (in_flight s) \<rparr>"
    obtain t' s' where r: "run_pass rs ?h ?s1 = (t', s')"
      by (cases "run_pass rs ?h ?s1") auto
    have "live s = add_mset ?h (live ?s1)"
      using mset_without_nth[OF i] by (simp add: live_def)
    from pass_tracked[OF r assms _ this] r
    have "tracked tid h0 (snd (run_pass rs ?h ?s1))"
      by simp }
  then show ?thesis
    using finish_cases[of i rs s] assms by auto
qed

lemma tick_tracked: "tracked tid h0 s \<Longrightarrow> tracked tid h0 (tick rs s)"
  using tick_steps[of rs s] finish_tracked[OF admit_tracked, of tid h0 s "length (in_flight s)" rs]
  by auto

lemma enqueue_tracked:
  "tracked tid h0 s \<Longrightarrow> task_id u \<noteq> tid \<Longrightarrow> tracked tid h0 (enqueue u s)"
  by (auto simp: tracked_def enqueue_def history_def live_def)

lemma run_tracked:
  "tracked tid h0 s \<Longrightarrow> tid \<notin> enqueued evs \<Longrightarrow> tracked tid h0 (run evs s)"
proof (induction evs arbitrary: s)
  case Nil
  then show ?case by simp
next
  case (Cons e evs)
  have en: "enqueued (e # evs) = enqueued [e] \<union> enqueued evs"
    by (cases e) (simp_all add: enqueued_def)
  have "tracked tid h0 (step e s)"
  proof (cases e)
    case (Enqueue u)
    with Cons.prems(2) have "task_id u \<noteq> tid"
      by (auto simp: enqueued_def)
    from enqueue_tracked[OF Cons.prems(1) this] Enqueue show ?thesis
      by simp
  next
    case Admit
    with admit_tracked[OF Cons.prems(1)] show ?thesis
      by simp
  next
    case (Finish i rs)
    with finish_tracked[OF Cons.prems(1), of i rs] show ?thesis
      by simp
  next
    case (Tick rs)
    with tick_tracked[OF Cons.prems(1), of rs] show ?thesis
      by simp
  qed
  with Cons.IH[of "step e s"] Cons.prems(2) en show ?case
    by simp
qed

text \<open>Before a task is submitted, no pass shows a state with its id.\<close>

lemma finish_history_absent:
  assumes "tid \<notin> managed s"
  shows "history tid (finish i rs s) = history tid s"
proof -
  { assume i: "i < length (in_flight s)"
    let ?h = "in_flight s ! i"
    let ?s1 = "s\<lparr> in_flight := take i (in_flight s) @ drop (Suc i) (in_flight s) \<rparr>"
    obtain t' s' where r: "run_pass rs ?h ?s1 = (t', s')"
      by (cases "run_pass rs ?h ?s1") auto
    have "task_id ?h \<noteq> tid"
      using assms i by (auto simp: managed_def in_flight_ids_def)
    with history_run_pass[OF r, of tid] r
    have "history tid (snd (run_pass rs ?h ?s1)) = history tid s"
      by (simp add: history_def) }
  then show ?thesis
    using finish_cases[of i rs s] by auto
qed

lemma step_history_absent:
  assumes "tid \<notin> managed s" and "tid \<notin> enqueued [e]"
  shows "history tid (step e s) = history tid s"
proof (cases e)
  case (Enqueue u)
  then show ?thesis
    by (simp add: enqueue_def history_def)
next
  case Admit
  then show ?thesis
    using history_same_trace[OF admit_trace, of tid s] by simp
next
  case (Finish i rs)
  then show ?thesis
    using finish_history_absent[OF assms(1)] by simp
next
  case (Tick rs)
  have "tid \<notin> managed (admit s)"
    using assms(1) admit_managed[of s] by auto
  from finish_history_absent[OF this, of "length (in_flight s)" rs]
  have "history tid (finish (length (in_flight s)) rs (admit s)) = history tid s"
    using history_same_trace[OF admit_trace, of tid s] by simp
  with Tick tick_steps[of rs s] show ?thesis
    by auto
qed

lemma run_history_absent:
  "tid \<notin> managed s \<Longrightarrow> tid \<notin> enqueued evs \<Longrightarrow> history tid s = []
   \<Longrightarrow> tid \<notin> managed (run evs s) \<and> history tid (run evs s) = []"
proof (induction evs arbitrary: s)
  case Nil
  then show ?case by simp
next
  case (Cons e evs)
  have en: "enqueued (e # evs) = enqueued [e] \<union> enqueued evs"
    by (cases e) (simp_all add: enqueued_def)
  have "tid \<notin> managed (step e s)"
    using gone_for_good[of tid s "[e]"] Cons.prems(1,2) en by simp
  moreover have "history tid (step e s) = []"
    using step_history_absent[of tid s e] Cons.prems en by simp
  ultimately show ?case
    using Cons.IH[of "step e s"] Cons.prems(2) en by simp
qed

lemma submit_tracked:
  assumes "tid \<notin> managed s" and "history tid s = []" and "task_id t = tid"
      and "hops (envelope t) < ttl_max (envelope t)"
  shows "tracked tid (hops (envelope t)) (enqueue t s)"
proof -
  have n: "\<forall>u \<in># live s. task_id u \<noteq> tid"
    using assms(1) by (auto simp: managed_def pending_ids_def in_flight_ids_def live_def)
  then have "filter_mset (\<lambda>u. task_id u = tid) (live s) = {#}"
    by simp
  moreover have "live (enqueue t s) = add_mset t (live s)"
    by (simp add: live_def enqueue_def)
  moreover have "history tid (enqueue t s) = []"
    using assms(2) by (simp add: history_def enqueue_def)
  ultimately show ?thesis
    using assms(3,4) n by (simp add: tracked_def)
qed

text \<open>
  Claim C6. A pass never lowers the hop count and raises it by at most one. Take any
  history of a new scheduler in which a task is submitted once, with its hop count below
  its ceiling, as it is at creation (0 and 10), among any submissions of tasks with other
  ids, any polls and any ends of passes, in any order. Then the states of the task that
  the scheduler saves, dead-letters or passes to a collaborator, in the order in which
  its passes produce them, never decrease in hop count, none of them has a hop count
  above the ceiling, and whenever the task is pending or in flight its hop count is below
  the ceiling.
\<close>

theorem hops_monotone_and_bounded:
  assumes "hops (envelope t) < ttl_max (envelope t)"
      and "task_id t \<notin> enqueued evs1"
      and "task_id t \<notin> enqueued evs2"
      and "s = run (evs1 @ Enqueue t # evs2) (new_TaskQueue cap)"
  shows "hops (envelope t) \<le> hops (envelope (fst (run_pass rs t sa))) \<and>
         hops (envelope (fst (run_pass rs t sa))) \<le> hops (envelope t) + 1 \<and>
         sorted (map (hops \<circ> envelope) (history (task_id t) s)) \<and>
         (\<forall>x \<in> set (history (task_id t) s).
            hops (envelope t) \<le> hops (envelope x)
            \<and> hops (envelope x) \<le> ttl_max (envelope x)) \<and>
         (\<forall>u \<in> set (queue s @ in_flight s). task_id u = task_id t \<longrightarrow>
            hops (envelope u) < ttl_max (envelope u))"
proof -
  obtain t' s' where r: "run_pass rs t sa = (t', s')"
    by (cases "run_pass rs t sa") auto
  from run_pass_advance[OF r] r have
    1: "hops (envelope t) \<le> hops (envelope (fst (run_pass rs t sa)))
        \<and> hops (envelope (fst (run_pass rs t sa))) \<le> hops (envelope t) + 1"
    by (simp add: advance_def)
  let ?s1 = "run evs1 (new_TaskQueue cap)"
  have "task_id t \<notin> managed (new_TaskQueue cap)" "history (task_id t) (new_TaskQueue cap) = []"
    by (simp_all add: managed_def pending_ids_def processing_ids_def in_flight_ids_def
                      new_TaskQueue_def history_def)
  from run_history_absent[OF this(1) assms(2) this(2)] have
    "task_id t \<notin> managed ?s1" "history (task_id t) ?s1 = []"
    by simp_all
  from submit_tracked[OF this refl assms(1)] have
    "tracked (task_id t) (hops (envelope t)) (enqueue t ?s1)" .
  from run_tracked[OF this assms(3)] have "tracked (task_id t) (hops (envelope t)) s"
    unfolding assms(4) by (simp add: run_append)
  then have
    "sorted (map (hops \<circ> envelope) (history (task_id t) s))"
    "\<forall>x \<in> set (history (task_id t) s).
       hops (envelope t) \<le> hops (envelope x) \<and> hops (envelope x) \<le> ttl_max (envelope x)"
    "\<forall>u \<in> set (queue s @ in_flight s). task_id u = task_id t \<longrightarrow>
       hops (envelope u) < ttl_max (envelope u)"
    unfolding tracked_def live_def by auto
  with 1 show ?thesis
    by blast
qed

theorem hops_monotone_and_bounded_witness:
  "hops (envelope task0) < ttl_max (envelope task0) \<and>
   task_id task0 \<notin> enqueued [Enqueue task1, Admit] \<and>
   task_id task0 \<notin> enqueued [Admit, Finish 0 rs_retry, Finish 0 rs_retry, Tick rs_pass] \<and>
   sorted (map (hops \<circ> envelope)
     (history (task_id task0)
        (run ([Enqueue task1, Admit] @ Enqueue task0
                # [Admit, Finish 0 rs_retry, Finish 0 rs_retry, Tick rs_pass])
             (new_TaskQueue (Some 3))))) \<and>
   hops (envelope (fst (run_pass rs_retry task0 queue0))) \<le> hops (envelope task0) + 1"
proof -
  have h1: "hops (envelope task0) < ttl_max (envelope task0)"
    by code_simp
  have h2: "task_id task0 \<notin> enqueued [Enqueue task1, Admit]"
    by code_simp
  have h3: "task_id task0
              \<notin> enqueued [Admit, Finish 0 rs_retry, Finish 0 rs_retry, Tick rs_pass]"
    by code_simp
  from hops_monotone_and_bounded[where cap = "Some 3" and rs = rs_retry and sa = queue0,
         OF h1 h2 h3 refl] h1 h2 h3
  show ?thesis
    by blast
qed

section \<open>The streak counters\<close>

text \<open>The dispatch leaves the success counter alone, in the task and in every state of
  it that it saves or passes on.\<close>

lemma execute_shows_counters:
  "processTask_execute rs t s = Inl (err, t', s') \<Longrightarrow>
     \<forall>e \<in> set (emitted s s').
        consecutive_successes (envelope (snapshot e)) = consecutive_successes (envelope t)"
  "processTask_execute rs t s = Inr (res, t', s') \<Longrightarrow>
     \<forall>e \<in> set (emitted s s').
        consecutive_successes (envelope (snapshot e)) = consecutive_successes (envelope t)"
  by (auto simp: processTask_execute_def Let_def inc_hops_def emitted_def effect_defs
           split: sum.splits prod.splits dest!: dispatch_frame)

lemma verdict_counters:
  "get_prop v ''status'' = Some (JStr ''PASS'') \<Longrightarrow>
     consecutive_successes (envelope (fst (processTask_verdict v res t s)))
       = consecutive_successes (envelope t) + 1 \<and>
     consecutive_failures (envelope (fst (processTask_verdict v res t s))) = 0"
  "get_prop v ''status'' = Some (JStr ''RETRY'') \<Longrightarrow>
     consecutive_failures (envelope (fst (processTask_verdict v res t s)))
       = consecutive_failures (envelope t) + 1 \<and>
     consecutive_successes (envelope (fst (processTask_verdict v res t s))) = 0"
  "get_prop v ''status'' \<noteq> Some (JStr ''PASS'') \<Longrightarrow>
   get_prop v ''status'' \<noteq> Some (JStr ''RETRY'') \<Longrightarrow>
     envelope (fst (processTask_verdict v res t s)) = envelope t"
  by (simp_all add: processTask_verdict_def pass_branch_envelope retry_branch_envelope
                    escalate_branch_envelope)

lemma handleFailure_counters:
  "consecutive_failures (envelope (fst (handleFailure msg t s)))
     = consecutive_failures (envelope t) + 1 \<and>
   consecutive_successes (envelope (fst (handleFailure msg t s)))
     = consecutive_successes (envelope t)"
  by (simp add: handleFailure_envelope)

text \<open>Whatever the verdict, a task without a success before it is handled has one of its
  counters at zero after, and no success if it has not passed.\<close>

lemma verdict_exclusive:
  assumes "consecutive_successes (envelope t) = 0"
  shows "exclusive (fst (processTask_verdict v res t s)) \<and>
         (status (fst (processTask_verdict v res t s)) = Retrying
            \<longrightarrow> consecutive_successes (envelope (fst (processTask_verdict v res t s))) = 0)"
proof -
  consider (pass) "get_prop v ''status'' = Some (JStr ''PASS'')"
    | (retry) "get_prop v ''status'' = Some (JStr ''RETRY'')"
    | (other) "get_prop v ''status'' \<noteq> Some (JStr ''PASS'')"
              "get_prop v ''status'' \<noteq> Some (JStr ''RETRY'')"
    by blast
  then show ?thesis
  proof cases
    case pass
    then have "status (fst (processTask_verdict v res t s)) = Completed"
      by (simp add: processTask_verdict_def pass_branch_task)
    with verdict_counters(1)[OF pass, of res t s] show ?thesis
      by (simp add: exclusive_def)
  next
    case retry
    from verdict_counters(2)[OF retry, of res t s] show ?thesis
      by (simp add: exclusive_def)
  next
    case other
    from verdict_counters(3)[OF other, of res t s] assms show ?thesis
      by (simp add: exclusive_def)
  qed
qed

text \<open>Both endings of a pass write only the task as they leave it.\<close>

lemma ending_shows_result:
  "\<exists>tl. trace (snd (handleFailure msg t s)) = trace s @ tl
        \<and> (\<forall>e \<in> set tl. snapshot e = fst (handleFailure msg t s))"
  "\<exists>tl. trace (snd (processTask_verdict v res t s)) = trace s @ tl
        \<and> (\<forall>e \<in> set tl. snapshot e = fst (processTask_verdict v res t s))"
  by (simp_all add: handleFailure_sched processTask_verdict_def pass_branch_sched
                    retry_branch_sched escalate_branch_sched)

lemma emitted_append:
  "trace s1 = trace s @ a \<Longrightarrow> trace s' = trace s1 @ b \<Longrightarrow> emitted s s' = a @ b"
  by (simp add: emitted_def)

text \<open>What one pass does to the counters: by the verdict, if one is reached; if
  \<^verbatim>\<open>processTask\<close> throws; and in every case for a task that comes without a success.\<close>

lemma run_pass_counters:
  assumes r: "run_pass rs h s = (t', s')"
  shows "verdict_of rs h s = Some (JStr ''PASS'') \<Longrightarrow>
           consecutive_successes (envelope t') = consecutive_successes (envelope h) + 1 \<and>
           consecutive_failures (envelope t') = 0"
    and "verdict_of rs h s = Some (JStr ''RETRY'') \<Longrightarrow>
           consecutive_failures (envelope t') = consecutive_failures (envelope h) + 1 \<and>
           consecutive_successes (envelope t') = 0"
    and "fst (processTask rs h s) \<noteq> None \<Longrightarrow>
           consecutive_failures (envelope t') = consecutive_failures (envelope h) + 1 \<and>
           consecutive_successes (envelope t') = consecutive_successes (envelope h)"
    and "consecutive_successes (envelope h) = 0 \<Longrightarrow>
           exclusive t' \<and>
           (status t' = Retrying \<longrightarrow> consecutive_successes (envelope t') = 0) \<and>
           (\<forall>e \<in> set (emitted s s'). exclusive (snapshot e))"
proof -
  have "(verdict_of rs h s = Some (JStr ''PASS'') \<longrightarrow>
           consecutive_successes (envelope t') = consecutive_successes (envelope h) + 1 \<and>
           consecutive_failures (envelope t') = 0) \<and>
        (verdict_of rs h s = Some (JStr ''RETRY'') \<longrightarrow>
           consecutive_failures (envelope t') = consecutive_failures (envelope h) + 1 \<and>
           consecutive_successes (envelope t') = 0) \<and>
        (fst (processTask rs h s) \<noteq> None \<longrightarrow>
           consecutive_failures (envelope t') = consecutive_failures (envelope h) + 1 \<and>
           consecutive_successes (envelope t') = consecutive_successes (envelope h)) \<and>
        (consecutive_successes (envelope h) = 0 \<longrightarrow>
           exclusive t' \<and>
           (status t' = Retrying \<longrightarrow> consecutive_successes (envelope t') = 0) \<and>
           (\<forall>e \<in> set (emitted s s'). exclusive (snapshot e)))"
  proof (cases "processTask_execute rs h s")
    case (Inl a)
    then obtain err t1 s1 where a: "processTask_execute rs h s = Inl (err, t1, s1)"
      by (cases a) auto
    from a r have t': "t' = fst (handleFailure err t1 s1)" and s': "s' = snd (handleFailure err t1 s1)"
      by (simp_all add: run_pass_def processTask_def)
    from a have v: "verdict_of rs h s = None" and th: "fst (processTask rs h s) \<noteq> None"
      by (simp_all add: verdict_of_def processTask_def)
    from execute_counters(1)[OF a] have
      c: "consecutive_failures (envelope t1) = consecutive_failures (envelope h)"
         "consecutive_successes (envelope t1) = consecutive_successes (envelope h)"
      by simp_all
    from handleFailure_counters[of err t1 s1] c have
      k: "consecutive_failures (envelope t') = consecutive_failures (envelope h) + 1"
         "consecutive_successes (envelope t') = consecutive_successes (envelope h)"
      by (simp_all add: t')
    from execute_advance(1)[OF a] have tr1: "trace s1 = trace s @ emitted s s1"
      by (simp add: advance_def trace_extended)
    from ending_shows_result(1)[of err t1 s1] obtain tl where
      tl: "trace s' = trace s1 @ tl" "\<forall>e \<in> set tl. snapshot e = t'"
      unfolding t' s' by blast
    have em: "emitted s s' = emitted s s1 @ tl"
      by (rule emitted_append[OF tr1 tl(1)])
    have "\<forall>e \<in> set (emitted s s'). exclusive (snapshot e)"
      if z: "consecutive_successes (envelope h) = 0"
      using execute_shows_counters(1)[OF a] tl(2) k(2) z unfolding em
      by (auto simp: exclusive_def)
    with v k show ?thesis
      by (simp add: th exclusive_def)
  next
    case (Inr b)
    then obtain res t1 s1 where b: "processTask_execute rs h s = Inr (res, t1, s1)"
      by (cases b) auto
    let ?s2 = "call VerifyResult t1 s1"
    from execute_counters(2)[OF b] have
      c: "consecutive_failures (envelope t1) = consecutive_failures (envelope h)"
         "consecutive_successes (envelope t1) = consecutive_successes (envelope h)"
      by simp_all
    from execute_advance(2)[OF b] have tr1: "trace s1 = trace s @ emitted s s1"
      by (simp add: advance_def trace_extended)
    have tr2: "trace ?s2 = trace s @ (emitted s s1 @ [Call VerifyResult t1])"
      by (simp add: call_def tr1)
    show ?thesis
    proof (cases "verifyResult rs t1 res")
      case (Inl err)
      with b r have t': "t' = fst (handleFailure err t1 ?s2)"
                and s': "s' = snd (handleFailure err t1 ?s2)"
        by (simp_all add: run_pass_def processTask_def)
      from b Inl have v: "verdict_of rs h s = None" and th: "fst (processTask rs h s) \<noteq> None"
        by (simp_all add: verdict_of_def processTask_def)
      from handleFailure_counters[of err t1 ?s2] c have
        k: "consecutive_failures (envelope t') = consecutive_failures (envelope h) + 1"
           "consecutive_successes (envelope t') = consecutive_successes (envelope h)"
        by (simp_all add: t')
      from ending_shows_result(1)[of err t1 ?s2] obtain tl where
        tl: "trace s' = trace ?s2 @ tl" "\<forall>e \<in> set tl. snapshot e = t'"
        unfolding t' s' by blast
      have em: "emitted s s' = (emitted s s1 @ [Call VerifyResult t1]) @ tl"
        by (rule emitted_append[OF tr2 tl(1)])
      have "\<forall>e \<in> set (emitted s s'). exclusive (snapshot e)"
        if z: "consecutive_successes (envelope h) = 0"
        using execute_shows_counters(2)[OF b] tl(2) k(2) c(2) z unfolding em
        by (auto simp: exclusive_def)
      with v k show ?thesis
        by (simp add: th exclusive_def)
    next
      case (Inr w)
      with b r have t': "t' = fst (processTask_verdict w res t1 ?s2)"
                and s': "s' = snd (processTask_verdict w res t1 ?s2)"
        by (simp_all add: run_pass_def processTask_def split: prod.splits)
      from b Inr have v: "verdict_of rs h s = get_prop w ''status''"
                  and th: "fst (processTask rs h s) = None"
        by (simp_all add: verdict_of_def processTask_def split: prod.splits)
      have 1: "consecutive_successes (envelope t') = consecutive_successes (envelope h) + 1 \<and>
               consecutive_failures (envelope t') = 0"
        if "verdict_of rs h s = Some (JStr ''PASS'')"
        using verdict_counters(1)[of w res t1 ?s2] that v c by (simp add: t')
      have 2: "consecutive_failures (envelope t') = consecutive_failures (envelope h) + 1 \<and>
               consecutive_successes (envelope t') = 0"
        if "verdict_of rs h s = Some (JStr ''RETRY'')"
        using verdict_counters(2)[of w res t1 ?s2] that v c by (simp add: t')
      from ending_shows_result(2)[of w res t1 ?s2] obtain tl where
        tl: "trace s' = trace ?s2 @ tl" "\<forall>e \<in> set tl. snapshot e = t'"
        unfolding t' s' by blast
      have em: "emitted s s' = (emitted s s1 @ [Call VerifyResult t1]) @ tl"
        by (rule emitted_append[OF tr2 tl(1)])
      have 4: "exclusive t' \<and>
               (status t' = Retrying \<longrightarrow> consecutive_successes (envelope t') = 0) \<and>
               (\<forall>e \<in> set (emitted s s'). exclusive (snapshot e))"
        if z: "consecutive_successes (envelope h) = 0"
      proof -
        from z c(2) have z1: "consecutive_successes (envelope t1) = 0"
          by simp
        from verdict_exclusive[OF z1, of w res ?s2] have
          x: "exclusive t'" "status t' = Retrying \<longrightarrow> consecutive_successes (envelope t') = 0"
          by (simp_all add: t')
        have "\<forall>e \<in> set (emitted s s'). exclusive (snapshot e)"
          using execute_shows_counters(2)[OF b] tl(2) x(1) z z1 unfolding em
          by (auto simp: exclusive_def)
        with x show ?thesis
          by simp
      qed
      from 1 2 4 th show ?thesis
        by simp
    qed
  qed
  then show
    "verdict_of rs h s = Some (JStr ''PASS'') \<Longrightarrow>
           consecutive_successes (envelope t') = consecutive_successes (envelope h) + 1 \<and>
           consecutive_failures (envelope t') = 0"
    "verdict_of rs h s = Some (JStr ''RETRY'') \<Longrightarrow>
           consecutive_failures (envelope t') = consecutive_failures (envelope h) + 1 \<and>
           consecutive_successes (envelope t') = 0"
    "fst (processTask rs h s) \<noteq> None \<Longrightarrow>
           consecutive_failures (envelope t') = consecutive_failures (envelope h) + 1 \<and>
           consecutive_successes (envelope t') = consecutive_successes (envelope h)"
    "consecutive_successes (envelope h) = 0 \<Longrightarrow>
           exclusive t' \<and>
           (status t' = Retrying \<longrightarrow> consecutive_successes (envelope t') = 0) \<and>
           (\<forall>e \<in> set (emitted s s'). exclusive (snapshot e))"
    by blast+
qed

subsection \<open>Along a history\<close>

lemma pass_counters_kept:
  assumes r: "run_pass rs h s1 = (t', s')"
      and h: "consecutive_successes (envelope h) = 0"
      and k: "counters_kept s1"
  shows "counters_kept s'"
proof -
  from run_pass_advance[OF r] have
    a: "advance h s1 t' s'" and
    p: "processing s' = AList.delete (task_id h) (processing s1)" and
    st: "settled s1 t' s'"
    by simp_all
  from a have tr: "trace s' = trace s1 @ emitted s1 s'"
    unfolding advance_def trace_extended by blast
  from a have fl: "in_flight s' = in_flight s1"
    by (simp add: advance_def)
  from run_pass_counters(4)[OF r h] have
    x: "exclusive t'" "status t' = Retrying \<longrightarrow> consecutive_successes (envelope t') = 0"
       "\<forall>e \<in> set (emitted s1 s'). exclusive (snapshot e)"
    by simp_all
  have q: "queue s' = queue s1 \<or> (queue s' = queue s1 @ [t'] \<and> status t' = Retrying)"
    using st by (auto simp: settled_def)
  have d: "set (done_list s') \<subseteq> set (done_list s1) \<union> {t'}"
    using st by (auto simp: settled_def)
  have ps: "set (processing s') \<subseteq> set (processing s1)"
    unfolding p by (rule set_delete_subset)
  from k have k1: "\<forall>u \<in> set (queue s1 @ in_flight s1). consecutive_successes (envelope u) = 0"
          and k2: "\<forall>x \<in> known s1. exclusive x"
    by (simp_all add: counters_kept_def)
  have live: "\<forall>u \<in> set (queue s' @ in_flight s'). consecutive_successes (envelope u) = 0"
    using q k1 x(2) fl by auto
  have qk: "set (queue s') \<subseteq> set (queue s1) \<union> {t'}"
    using q by auto
  have "\<forall>y \<in> known s'. y \<in> known s1 \<or> y = t' \<or> y \<in> snapshot ` set (emitted s1 s')"
    using qk d ps fl unfolding known_def tr by auto
  with k2 x(1,3) have "\<forall>y \<in> known s'. exclusive y"
    by blast
  with live show ?thesis
    by (simp add: counters_kept_def)
qed

lemma admit_counters_kept:
  assumes "counters_kept s"
  shows "counters_kept (admit s)"
proof -
  from admit_cases[of s] show ?thesis
  proof
    assume "admit s = s"
    with assms show ?thesis by simp
  next
    assume "\<exists>t rest. queue s = t # rest \<and>
              admit s = s\<lparr> queue := rest, processing := AList.update (task_id t) t (processing s),
                           in_flight := in_flight s @ [t] \<rparr>"
    then obtain t rest where q: "queue s = t # rest"
      and e: "admit s = s\<lparr> queue := rest,
                            processing := AList.update (task_id t) t (processing s),
                            in_flight := in_flight s @ [t] \<rparr>"
      by blast
    have l: "set (queue (admit s) @ in_flight (admit s)) = set (queue s @ in_flight s)"
      unfolding e using q by auto
    from assms admit_known[of s] l show ?thesis
      unfolding counters_kept_def by blast
  qed
qed

lemma finish_counters_kept:
  assumes "counters_kept s"
  shows "counters_kept (finish i rs s)"
proof -
  from finish_cases[of i rs s] show ?thesis
  proof
    assume "finish i rs s = s"
    with assms show ?thesis by simp
  next
    let ?h = "in_flight s ! i"
    let ?s1 = "s\<lparr> in_flight := take i (in_flight s) @ drop (Suc i) (in_flight s) \<rparr>"
    assume c: "i < length (in_flight s) \<and> finish i rs s = snd (run_pass rs ?h ?s1)"
    obtain t' s' where r: "run_pass rs ?h ?s1 = (t', s')"
      by (cases "run_pass rs ?h ?s1") auto
    from c have "?h \<in> set (queue s @ in_flight s)"
      by simp
    with assms have h: "consecutive_successes (envelope ?h) = 0"
      unfolding counters_kept_def by blast
    have "known ?s1 \<subseteq> known s" "set (queue ?s1 @ in_flight ?s1) \<subseteq> set (queue s @ in_flight s)"
      using set_without_nth[of i "in_flight s"] by (auto simp: known_def)
    with assms have "counters_kept ?s1"
      unfolding counters_kept_def by blast
    from pass_counters_kept[OF r h this] c r show ?thesis
      by simp
  qed
qed

lemma step_counters_kept:
  assumes "counters_kept s"
      and "\<forall>u \<in> set (submitted [e]). consecutive_successes (envelope u) = 0"
  shows "counters_kept (step e s)"
proof (cases e)
  case (Enqueue u)
  have "known (enqueue u s) = insert u (known s)"
       "set (queue (enqueue u s) @ in_flight (enqueue u s)) = insert u (set (queue s @ in_flight s))"
    by (auto simp: known_def enqueue_def)
  with assms Enqueue show ?thesis
    by (simp add: counters_kept_def exclusive_def)
next
  case Admit
  with admit_counters_kept[OF assms(1)] show ?thesis
    by simp
next
  case (Finish i rs)
  with finish_counters_kept[OF assms(1)] show ?thesis
    by simp
next
  case (Tick rs)
  with tick_steps[of rs s] finish_counters_kept[OF admit_counters_kept[OF assms(1)]] assms(1)
  show ?thesis
    by auto
qed

lemma run_counters_kept:
  "counters_kept s \<Longrightarrow> \<forall>u \<in> set (submitted evs). consecutive_successes (envelope u) = 0
     \<Longrightarrow> counters_kept (run evs s)"
proof (induction evs arbitrary: s)
  case Nil
  then show ?case by simp
next
  case (Cons e evs)
  have sub: "set (submitted (e # evs)) = set (submitted [e]) \<union> set (submitted evs)"
    by (cases e) simp_all
  have "counters_kept (step e s)"
    using step_counters_kept[of s e] Cons.prems sub by blast
  with Cons.IH[of "step e s"] Cons.prems(2) sub show ?case
    by simp
qed

text \<open>
  Claim C1. A pass that ends in a PASS verdict increments the success counter and sets
  the failure counter to zero; a pass that ends in a RETRY verdict increments the failure
  counter and sets the success counter to zero. A pass in which \<^verbatim>\<open>processTask\<close>
  throws increments the failure counter and leaves the success counter as it is, and that
  counter is zero on every task that a pass is given: the submission endpoint creates a
  task with both counters at zero, and in every history of submissions, polls and ends of passes
  whose submitted tasks come without a success, every task that is pending or in flight
  is without a success, and every task that the scheduler holds, pending, being
  processed, in flight or done, and every state it has written or passed on, has at most
  one of the two counters nonzero.
\<close>

theorem counters_never_both_nonzero:
  "consecutive_failures (envelope (post_api_tasks taskId now descr sw ty files)) = 0 \<and>
   consecutive_successes (envelope (post_api_tasks taskId now descr sw ty files)) = 0 \<and>
   (verdict_of rs t s = Some (JStr ''PASS'') \<longrightarrow>
      consecutive_successes (envelope (fst (run_pass rs t s)))
        = consecutive_successes (envelope t) + 1 \<and>
      consecutive_failures (envelope (fst (run_pass rs t s))) = 0) \<and>
   (verdict_of rs t s = Some (JStr ''RETRY'') \<longrightarrow>
      consecutive_failures (envelope (fst (run_pass rs t s)))
        = consecutive_failures (envelope t) + 1 \<and>
      consecutive_successes (envelope (fst (run_pass rs t s))) = 0) \<and>
   (fst (processTask rs t s) \<noteq> None \<longrightarrow>
      consecutive_failures (envelope (fst (run_pass rs t s)))
        = consecutive_failures (envelope t) + 1 \<and>
      consecutive_successes (envelope (fst (run_pass rs t s)))
        = consecutive_successes (envelope t)) \<and>
   ((\<forall>u \<in> set (submitted evs). consecutive_successes (envelope u) = 0) \<longrightarrow>
      (\<forall>u \<in> set (queue (run evs (new_TaskQueue cap)) @ in_flight (run evs (new_TaskQueue cap))).
         consecutive_successes (envelope u) = 0) \<and>
      (\<forall>x \<in> known (run evs (new_TaskQueue cap)).
         consecutive_failures (envelope x) = 0 \<or> consecutive_successes (envelope x) = 0))"
proof -
  have 0: "consecutive_failures (envelope (post_api_tasks taskId now descr sw ty files)) = 0 \<and>
           consecutive_successes (envelope (post_api_tasks taskId now descr sw ty files)) = 0"
    by (simp add: post_api_tasks_def)
  obtain t' s' where r: "run_pass rs t s = (t', s')"
    by (cases "run_pass rs t s") auto
  note c = run_pass_counters(1-3)[OF r]
  have i: "counters_kept (new_TaskQueue cap)"
    by (simp add: counters_kept_def known_def new_TaskQueue_def)
  have 4: "(\<forall>u \<in> set (queue (run evs (new_TaskQueue cap)) @ in_flight (run evs (new_TaskQueue cap))).
              consecutive_successes (envelope u) = 0) \<and>
           (\<forall>x \<in> known (run evs (new_TaskQueue cap)).
              consecutive_failures (envelope x) = 0 \<or> consecutive_successes (envelope x) = 0)"
    if "\<forall>u \<in> set (submitted evs). consecutive_successes (envelope u) = 0"
    using run_counters_kept[OF i that] by (simp add: counters_kept_def exclusive_def)
  from 0 c 4 r show ?thesis
    by simp
qed

theorem counters_never_both_nonzero_witness:
  "verdict_of rs_pass task0 queue0 = Some (JStr ''PASS'') \<and>
   consecutive_successes (envelope (fst (run_pass rs_pass task0 queue0))) = 1 \<and>
   consecutive_failures (envelope (fst (run_pass rs_pass task0 queue0))) = 0 \<and>
   verdict_of rs_retry task_recovered queue0 = Some (JStr ''RETRY'') \<and>
   consecutive_successes (envelope task_recovered) = 1 \<and>
   consecutive_failures (envelope (fst (run_pass rs_retry task_recovered queue0))) = 1 \<and>
   consecutive_successes (envelope (fst (run_pass rs_retry task_recovered queue0))) = 0 \<and>
   fst (processTask rs_plan_down task0 queue0) = Some ''Gemini API error (503): unavailable'' \<and>
   consecutive_failures (envelope (fst (run_pass rs_plan_down task0 queue0))) = 1 \<and>
   consecutive_successes (envelope (fst (run_pass rs_plan_down task0 queue0))) = 0 \<and>
   map (\<lambda>u. consecutive_successes (envelope u))
     (submitted [Enqueue task0, Tick rs_retry, Tick rs_plan_down, Tick rs_pass]) = [0] \<and>
   length (done_list (run [Enqueue task0, Tick rs_retry, Tick rs_plan_down, Tick rs_pass]
                        (new_TaskQueue (Some 3)))) = 1 \<and>
   exclusive (hd (done_list (run [Enqueue task0, Tick rs_retry, Tick rs_plan_down, Tick rs_pass]
                               (new_TaskQueue (Some 3)))))"
proof -
  let ?evs = "[Enqueue task0, Tick rs_retry, Tick rs_plan_down, Tick rs_pass]"
  define s where "s = run ?evs (new_TaskQueue (Some 3))"
  have v1: "verdict_of rs_pass task0 queue0 = Some (JStr ''PASS'')"
    by code_simp
  have v2: "verdict_of rs_retry task_recovered queue0 = Some (JStr ''RETRY'')"
    by code_simp
  have v3: "fst (processTask rs_plan_down task0 queue0)
              = Some ''Gemini API error (503): unavailable''"
    by code_simp
  then have v3': "fst (processTask rs_plan_down task0 queue0) \<noteq> None"
    by (simp only: option.distinct not_False_eq_True)
  have z: "consecutive_successes (envelope task0) = 0"
          "consecutive_failures (envelope task0) = 0"
          "consecutive_successes (envelope task_recovered) = 1"
          "consecutive_failures (envelope task_recovered) = 0"
    by code_simp+
  have sub: "map (\<lambda>u. consecutive_successes (envelope u)) (submitted ?evs) = [0]"
    by code_simp
  have sub': "\<forall>u \<in> set (submitted ?evs). consecutive_successes (envelope u) = 0"
    by (simp add: z)
  have d: "length (done_list s) = 1"
    unfolding s_def by code_simp
  then have "done_list s \<noteq> []"
    by (metis length_0_conv zero_neq_one)
  then have "hd (done_list s) \<in> set (done_list s)"
    by (rule hd_in_set)
  then have kn: "hd (done_list s) \<in> known s"
    unfolding known_def by blast
  note pass = counters_never_both_nonzero[where rs = rs_pass and t = task0 and s = queue0
         and evs = ?evs and cap = "Some 3"
         and taskId = "[]" and now = "[]" and descr = "[]" and sw = None and ty = None
         and files = "[]", folded s_def]
  note retry = counters_never_both_nonzero[where rs = rs_retry and t = task_recovered
         and s = queue0 and evs = "[]" and cap = "Some 3"
         and taskId = "[]" and now = "[]" and descr = "[]" and sw = None and ty = None
         and files = "[]"]
  note thrown = counters_never_both_nonzero[where rs = rs_plan_down and t = task0
         and s = queue0 and evs = "[]" and cap = "Some 3"
         and taskId = "[]" and now = "[]" and descr = "[]" and sw = None and ty = None
         and files = "[]"]
  from pass[THEN conjunct2, THEN conjunct2, THEN conjunct1, THEN mp, OF v1] z
  have 1: "consecutive_successes (envelope (fst (run_pass rs_pass task0 queue0))) = 1 \<and>
           consecutive_failures (envelope (fst (run_pass rs_pass task0 queue0))) = 0"
    by simp
  from retry[THEN conjunct2, THEN conjunct2, THEN conjunct2, THEN conjunct1, THEN mp, OF v2] z
  have 2: "consecutive_failures (envelope (fst (run_pass rs_retry task_recovered queue0))) = 1 \<and>
           consecutive_successes (envelope (fst (run_pass rs_retry task_recovered queue0))) = 0"
    by simp
  from thrown[THEN conjunct2, THEN conjunct2, THEN conjunct2, THEN conjunct2, THEN conjunct1,
              THEN mp, OF v3'] z
  have 3: "consecutive_failures (envelope (fst (run_pass rs_plan_down task0 queue0))) = 1 \<and>
           consecutive_successes (envelope (fst (run_pass rs_plan_down task0 queue0))) = 0"
    by simp
  from pass[THEN conjunct2, THEN conjunct2, THEN conjunct2, THEN conjunct2, THEN conjunct2,
            THEN mp, OF sub', THEN conjunct2, THEN bspec, OF kn]
  have 4: "exclusive (hd (done_list s))"
    by (simp only: exclusive_def)
  from v1 v2 v3 z(3) sub d 1 2 3 4 show ?thesis
    unfolding s_def by blast
qed

end
